theory Spec2Isabelle
  imports Main "HOL-Library.Sublist"
begin

unbundle bit_operations_syntax

section \<open>Python values, strings and errors\<close>

text \<open>
  The program is the single script \<^verbatim>\<open>proxy_spray.py\<close>. A Python \<^verbatim>\<open>str\<close> is modelled as
  a \<^typ>\<open>string\<close>, one \<^typ>\<open>char\<close> per code point, so the model covers the strings whose
  code points are below 256. Every exception the script can raise is a constructor of
  \<open>error\<close>, and a function that can raise returns \<open>error + 'a\<close>.
\<close>

datatype error =
    AssertionError
  | AddressValueError
  | NetmaskValueError
  | TypeError
  | AttributeError
  | IndexError
  | ValueError

text \<open>
  The proxy list holds dictionaries with a single key. \<open>Dict1 k v\<close> is the dictionary
  \<^verbatim>\<open>{k: v}\<close>; its value is a string or, again, a dictionary.
\<close>

datatype pyval = Str string | Dict1 string pyval

definition newline :: char where
  "newline = CHR 0x0A"

text \<open>\<^verbatim>\<open>str.isspace\<close> on one code point below 256.\<close>

definition isspace :: "char \<Rightarrow> bool" where
  "isspace c = ((of_char c :: nat) \<in> set [9, 10, 11, 12, 13, 28, 29, 30, 31, 32, 133, 160])"

definition is_digit :: "char \<Rightarrow> bool" where
  "is_digit c = (c \<in> set ''0123456789'')"

text \<open>Simple case folding of the ASCII letters, as \<^verbatim>\<open>re.I\<close> applies it to a literal.\<close>

definition ascii_lower :: "char \<Rightarrow> char" where
  "ascii_lower c =
     (case map_of (zip ''ABCDEFGHIJKLMNOPQRSTUVWXYZ'' ''abcdefghijklmnopqrstuvwxyz'') c of
        Some l \<Rightarrow> l
      | None \<Rightarrow> c)"

text \<open>\<^verbatim>\<open>s.strip()\<close>: whitespace removed at both ends.\<close>

definition py_strip :: "string \<Rightarrow> string" where
  "py_strip s = rev (dropWhile isspace (rev (dropWhile isspace s)))"

text \<open>\<^verbatim>\<open>s.split(c)\<close> for a separator of one character; the result is never empty.\<close>

fun py_split :: "char \<Rightarrow> string \<Rightarrow> string list" where
  "py_split c [] = [[]]"
| "py_split c (x # xs) =
     (if x = c then [] # py_split c xs
      else (case py_split c xs of
              w # ws \<Rightarrow> (x # w) # ws
            | [] \<Rightarrow> [[x]]))"

text \<open>\<^verbatim>\<open>int(s)\<close> on a string of ASCII digits, and \<^verbatim>\<open>str(n)\<close> for \<open>n \<ge> 0\<close>.\<close>

definition digit_val :: "char \<Rightarrow> nat" where
  "digit_val c = (case map_of (zip ''0123456789'' [0, 1, 2, 3, 4, 5, 6, 7, 8, 9]) c of
                    Some d \<Rightarrow> d
                  | None \<Rightarrow> 0)"

definition int_of_digits :: "string \<Rightarrow> nat" where
  "int_of_digits s = foldl (\<lambda>n c. 10 * n + digit_val c) 0 s"

definition digit_char :: "nat \<Rightarrow> char" where
  "digit_char d = ''0123456789'' ! d"

function str_nat :: "nat \<Rightarrow> string" where
  "str_nat n = (if n < 10 then [digit_char n] else str_nat (n div 10) @ [digit_char (n mod 10)])"
  by pat_completeness auto
termination
  by (relation "measure id") auto

section \<open>The regular expressions of the script\<close>

text \<open>
  The script uses four patterns, all built from literal characters, the classes
  \<^verbatim>\<open>.\<close>, \<^verbatim>\<open>[0-9]\<close> and \<^verbatim>\<open>\s\<close>, greedy repetition of one such class, the anchors
  \<^verbatim>\<open>^\<close> and \<^verbatim>\<open>$\<close> (without \<^verbatim>\<open>re.MULTILINE\<close>) and capturing groups. \<open>rx\<close> is the syntax
  of that fragment and \<open>rmatch\<close> the backtracking matcher of \<^verbatim>\<open>re\<close> on it: it lists every
  way the pattern matches at a position, in the order in which backtracking tries them,
  so that the head of the list is the match \<^verbatim>\<open>re\<close> reports.
\<close>

datatype cls = Lit char | Dot | Digit | Space

datatype rx =
    Eps
  | Atom cls
  | Bol
  | Eol
  | Rep nat "nat option" cls
  | Grp nat rx
  | Seq rx rx

type_synonym caps = "(nat \<times> nat \<times> nat) list"

text \<open>Whether one character belongs to a class; \<open>ic\<close> is the flag \<^verbatim>\<open>re.I\<close>.\<close>

fun cls_ok :: "bool \<Rightarrow> cls \<Rightarrow> char \<Rightarrow> bool" where
  "cls_ok ic (Lit c) x = (x = c \<or> (ic \<and> ascii_lower x = ascii_lower c))"
| "cls_ok ic Dot x = (x \<noteq> newline)"
| "cls_ok ic Digit x = is_digit x"
| "cls_ok ic Space x = isspace x"

text \<open>
  \<open>rmatch ic r p rest c\<close>: the pattern \<open>r\<close> is tried at position \<open>p\<close> of the subject, of
  which \<open>rest\<close> is what lies from \<open>p\<close> on; \<open>c\<close> holds the groups closed so far. Each result
  is the position after the match, the text that remains there, and the groups.
  \<^verbatim>\<open>$\<close> holds at the end of the subject and just before a newline that ends it.
  \<open>Rep m n a\<close> is \<^verbatim>\<open>a{m,n}\<close> (\<open>None\<close>: no upper bound); it is greedy, so the longest run
  comes first.
\<close>

fun rmatch :: "bool \<Rightarrow> rx \<Rightarrow> nat \<Rightarrow> string \<Rightarrow> caps \<Rightarrow> (nat \<times> string \<times> caps) list" where
  "rmatch ic Eps p rest c = [(p, rest, c)]"
| "rmatch ic (Atom a) p rest c =
     (case rest of
        [] \<Rightarrow> []
      | x # xs \<Rightarrow> (if cls_ok ic a x then [(Suc p, xs, c)] else []))"
| "rmatch ic Bol p rest c = (if p = 0 then [(p, rest, c)] else [])"
| "rmatch ic Eol p rest c = (if rest = [] \<or> rest = [newline] then [(p, rest, c)] else [])"
| "rmatch ic (Rep m n a) p rest c =
     (let k = length (takeWhile (cls_ok ic a) rest);
          k' = (case n of None \<Rightarrow> k | Some mx \<Rightarrow> min k mx)
      in map (\<lambda>j. (p + j, drop j rest, c)) (rev [m ..< Suc k']))"
| "rmatch ic (Grp g r) p rest c =
     map (\<lambda>(e, rest', c'). (e, rest', (g, p, e) # c')) (rmatch ic r p rest c)"
| "rmatch ic (Seq a b) p rest c =
     concat (map (\<lambda>(e, rest', c'). rmatch ic b e rest' c') (rmatch ic a p rest c))"

text \<open>A run of literal characters.\<close>

fun lits :: "string \<Rightarrow> rx" where
  "lits [] = Eps"
| "lits (x # xs) = Seq (Atom (Lit x)) (lits xs)"

text \<open>
  \<open>first_match\<close> scans the start positions from \<open>p\<close> to the end of the subject, the end
  included, and returns the first match as (start, end, groups).
\<close>

fun first_match :: "bool \<Rightarrow> rx \<Rightarrow> nat \<Rightarrow> string \<Rightarrow> (nat \<times> nat \<times> caps) option" where
  "first_match ic r p [] =
     (case rmatch ic r p [] [] of
        [] \<Rightarrow> None
      | (e, _, c) # _ \<Rightarrow> Some (p, e, c))"
| "first_match ic r p (x # xs) =
     (case rmatch ic r p (x # xs) [] of
        [] \<Rightarrow> first_match ic r (Suc p) xs
      | (e, _, c) # _ \<Rightarrow> Some (p, e, c))"

text \<open>\<^verbatim>\<open>re.search(r, s)\<close> on a string.\<close>

definition re_search :: "bool \<Rightarrow> rx \<Rightarrow> string \<Rightarrow> (nat \<times> nat \<times> caps) option" where
  "re_search ic r s = first_match ic r 0 s"

text \<open>
  \<^verbatim>\<open>re.search\<close> on any value: a subject that is not a string raises \<^verbatim>\<open>TypeError\<close>
  (``expected string or bytes-like object'').
\<close>

fun re_search_val :: "bool \<Rightarrow> rx \<Rightarrow> pyval \<Rightarrow> error + (string \<times> nat \<times> nat \<times> caps) option" where
  "re_search_val ic r (Str s) = Inr (map_option (\<lambda>m. (s, m)) (re_search ic r s))"
| "re_search_val ic r (Dict1 k v) = Inl TypeError"

text \<open>
  \<^verbatim>\<open>m.groups()[g - 1]\<close>: the text of group \<open>g\<close>, \<open>None\<close> when the group took no part in
  the match.
\<close>

definition group :: "string \<Rightarrow> caps \<Rightarrow> nat \<Rightarrow> string option" where
  "group s c g = map_option (\<lambda>(a, b). take (b - a) (drop a s)) (map_of c g)"

subsection \<open>Facts about the matcher\<close>

text \<open>
  A match consumes a prefix of what is left of the subject: the lemmas below describe,
  for each construct, which triples the matcher lists. They are needed already for the
  termination of \<^verbatim>\<open>re.split\<close>.
\<close>

lemma mem_Seq:
  "x \<in> set (rmatch ic (Seq a b) p rest c) \<longleftrightarrow>
     (\<exists>e1 r1 c1. (e1, r1, c1) \<in> set (rmatch ic a p rest c) \<and> x \<in> set (rmatch ic b e1 r1 c1))"
  by force

lemma mem_Grp:
  "(e, r', c') \<in> set (rmatch ic (Grp g r) p rest c) \<longleftrightarrow>
     (\<exists>c1. (e, r', c1) \<in> set (rmatch ic r p rest c) \<and> c' = (g, p, e) # c1)"
  by force

lemma mem_Atom:
  "(e, r', c') \<in> set (rmatch ic (Atom a) p rest c) \<longleftrightarrow>
     (\<exists>x. rest = x # r' \<and> cls_ok ic a x \<and> e = Suc p \<and> c' = c)"
  by (cases rest) auto

lemma mem_Eol:
  "(e, r', c') \<in> set (rmatch ic Eol p rest c) \<longleftrightarrow>
     ((rest = [] \<or> rest = [newline]) \<and> e = p \<and> r' = rest \<and> c' = c)"
  by auto

lemma mem_lits:
  "(e, r', c') \<in> set (rmatch ic (lits w) p rest c) \<longleftrightarrow>
     (c' = c \<and> e = p + length w \<and>
      (\<exists>pre. rest = pre @ r' \<and> list_all2 (\<lambda>a x. cls_ok ic (Lit a) x) w pre))"
proof (induction w arbitrary: p rest)
  case Nil
  then show ?case by auto
next
  case (Cons a w)
  have "(e, r', c') \<in> set (rmatch ic (lits (a # w)) p rest c) \<longleftrightarrow>
          (\<exists>x xs. rest = x # xs \<and> cls_ok ic (Lit a) x \<and>
                  (e, r', c') \<in> set (rmatch ic (lits w) (Suc p) xs c))"
    by (cases rest) (simp_all del: cls_ok.simps)
  also have "\<dots> \<longleftrightarrow> (c' = c \<and> e = p + length (a # w) \<and>
      (\<exists>pre. rest = pre @ r' \<and> list_all2 (\<lambda>a x. cls_ok ic (Lit a) x) (a # w) pre))"
    unfolding Cons.IH list_all2_Cons1
    by (simp del: cls_ok.simps) (metis append_Cons)
  finally show ?case .
qed

lemma le_takeWhile_iff:
  "j \<le> length (takeWhile P xs) \<longleftrightarrow> (j \<le> length xs \<and> list_all P (take j xs))"
proof (induction xs arbitrary: j)
  case Nil
  then show ?case by simp
next
  case (Cons x xs)
  then show ?case by (cases j) auto
qed

lemma mem_Rep:
  "(e, r', c') \<in> set (rmatch ic (Rep m n a) p rest c) \<longleftrightarrow>
     (c' = c \<and>
      (\<exists>pre. rest = pre @ r' \<and> e = p + length pre \<and> m \<le> length pre \<and>
             (case n of None \<Rightarrow> True | Some mx \<Rightarrow> length pre \<le> mx) \<and>
             list_all (cls_ok ic a) pre))"
  (is "?L \<longleftrightarrow> ?R")
proof
  assume ?L
  then obtain j where j: "e = p + j" "r' = drop j rest" "c' = c" "m \<le> j"
      "j \<le> length (takeWhile (cls_ok ic a) rest)"
      "case n of None \<Rightarrow> True | Some mx \<Rightarrow> j \<le> mx"
    by (auto simp: Let_def split: option.splits simp del: upt_Suc)
  then have "rest = take j rest @ r'" "length (take j rest) = j" "list_all (cls_ok ic a) (take j rest)"
    by (auto simp: le_takeWhile_iff)
  with j show ?R
    by (metis (no_types, lifting))
next
  assume ?R
  then obtain pre where pre: "c' = c" "rest = pre @ r'" "e = p + length pre" "m \<le> length pre"
      "case n of None \<Rightarrow> True | Some mx \<Rightarrow> length pre \<le> mx" "list_all (cls_ok ic a) pre"
    by blast
  then have "length pre \<le> length (takeWhile (cls_ok ic a) rest)"
    by (simp add: le_takeWhile_iff)
  with pre show ?L
    by (auto simp: Let_def image_iff split: option.splits simp del: upt_Suc intro!: bexI [of _ "length pre"])
qed

lemma rmatch_bounds:
  "(e, r', c') \<in> set (rmatch ic r p rest c) \<Longrightarrow> p \<le> e \<and> e + length r' = p + length rest"
proof (induction r arbitrary: p rest c e r' c')
  case (Rep m n a)
  then show ?case
    unfolding mem_Rep by auto
next
  case (Grp g r)
  then show ?case
    unfolding mem_Grp by blast
next
  case (Seq a b)
  from Seq.prems obtain e1 r1 c1 where
    1: "(e1, r1, c1) \<in> set (rmatch ic a p rest c)" and 2: "(e, r', c') \<in> set (rmatch ic b e1 r1 c1)"
    unfolding mem_Seq by blast
  from Seq.IH(1) [OF 1] Seq.IH(2) [OF 2] show ?case by simp
next
  case (Atom a)
  then show ?case
    unfolding mem_Atom by auto
qed (auto split: if_splits)

lemma first_match_bounds:
  "first_match ic r p rest = Some (st, e, c) \<Longrightarrow> p \<le> st \<and> st \<le> e \<and> e \<le> p + length rest"
proof (induction rest arbitrary: p)
  case Nil
  show ?case
  proof (cases "rmatch ic r p [] []")
    case Nil
    with Nil.prems show ?thesis by simp
  next
    case (Cons m ms)
    obtain e' r' c' where m: "m = (e', r', c')" by (cases m)
    with Cons have "(e', r', c') \<in> set (rmatch ic r p [] [])" by simp
    from rmatch_bounds [OF this] Nil.prems Cons m show ?thesis by simp
  qed
next
  case (Cons x xs)
  show ?case
  proof (cases "rmatch ic r p (x # xs) []")
    case Nil
    with Cons.prems have "first_match ic r (Suc p) xs = Some (st, e, c)" by simp
    from Cons.IH [OF this] show ?thesis by simp
  next
    case (Cons m ms)
    obtain e' r' c' where m: "m = (e', r', c')" by (cases m)
    with Cons have "(e', r', c') \<in> set (rmatch ic r p (x # xs) [])" by simp
    from rmatch_bounds [OF this] Cons.prems Cons m show ?thesis by simp
  qed
qed

lemma rmatch_Bol_pos: "0 < p \<Longrightarrow> rmatch ic (Seq Bol r) p rest c = []"
  by simp

lemma first_match_Bol_pos: "0 < p \<Longrightarrow> first_match ic (Seq Bol r) p rest = None"
  by (induction rest arbitrary: p) simp_all

lemma first_match_Bol:
  "first_match ic (Seq Bol r) 0 s =
     (case rmatch ic r 0 s [] of [] \<Rightarrow> None | (e, _, c) # _ \<Rightarrow> Some (0, e, c))"
  by (cases s) (simp_all add: first_match_Bol_pos split: list.splits)

lemma search_Bol_cases:
  obtains (none) "rmatch ic r 0 s [] = []" "re_search ic (Seq Bol r) s = None"
  | (some) e r' c where "(e, r', c) \<in> set (rmatch ic r 0 s [])"
      "re_search ic (Seq Bol r) s = Some (0, e, c)"
  unfolding re_search_def first_match_Bol
  by (cases "rmatch ic r 0 s []") auto

subsection \<open>\<^verbatim>\<open>re.split\<close>\<close>

text \<open>
  \<^verbatim>\<open>re.split\<close> searches from where the last match ended. After an empty match the
  next search must advance: an empty match at the start position is skipped, a longer one
  there or any match further on is taken. \<open>search_from\<close> is that search.
\<close>

definition search_from :: "bool \<Rightarrow> rx \<Rightarrow> string \<Rightarrow> nat \<Rightarrow> bool \<Rightarrow> (nat \<times> nat \<times> caps) option" where
  "search_from ic r s start must_advance =
     (case filter (\<lambda>(e, rest', c). \<not> (must_advance \<and> e = start))
             (rmatch ic r start (drop start s) []) of
        (e, _, c) # _ \<Rightarrow> Some (start, e, c)
      | [] \<Rightarrow>
          (if start < length s then first_match ic r (Suc start) (drop (Suc start) s)
           else None))"

lemma search_from_bounds:
  assumes "search_from ic r s start must = Some (st, e, c)"
  shows "start \<le> st \<and> st \<le> e \<and> (start \<le> length s \<longrightarrow> e \<le> length s) \<and>
         (length s < start \<longrightarrow> e = start) \<and> (e = start \<longrightarrow> st = start \<and> \<not> must)"
proof (cases "filter (\<lambda>(e, rest', c). \<not> (must \<and> e = start)) (rmatch ic r start (drop start s) [])")
  case Nil
  with assms have lt: "start < length s"
    and fm: "first_match ic r (Suc start) (drop (Suc start) s) = Some (st, e, c)"
    by (auto simp: search_from_def split: if_splits)
  from first_match_bounds [OF fm] lt show ?thesis by auto
next
  case (Cons m ms)
  obtain e' r' c' where m: "m = (e', r', c')" by (cases m)
  have "m \<in> set (filter (\<lambda>(e, rest', c). \<not> (must \<and> e = start)) (rmatch ic r start (drop start s) []))"
    unfolding Cons by simp
  with m have mem: "(e', r', c') \<in> set (rmatch ic r start (drop start s) [])"
    and nm: "\<not> (must \<and> e' = start)"
    by auto
  from assms Cons m have eq: "st = start" "e = e'" "c = c'"
    by (auto simp: search_from_def)
  from rmatch_bounds [OF mem] eq nm show ?thesis by auto
qed

text \<open>
  The loop of \<^verbatim>\<open>re.split\<close>: the text before each match, then the match's groups
  (\<open>None\<close> for a group that took no part), and at the end the text after the last match.
\<close>

function split_loop :: "bool \<Rightarrow> rx \<Rightarrow> nat \<Rightarrow> string \<Rightarrow> nat \<Rightarrow> bool \<Rightarrow> string option list" where
  "split_loop ic r groups s lastpos must_advance =
     (case search_from ic r s lastpos must_advance of
        None \<Rightarrow> [Some (drop lastpos s)]
      | Some (st, e, c) \<Rightarrow>
          Some (take (st - lastpos) (drop lastpos s)) # map (group s c) [1 ..< Suc groups] @
          split_loop ic r groups s e (e = st))"
  by pat_completeness auto
termination
proof (relation "measure (\<lambda>(ic, r, groups, s, lastpos, must). 2 * (length s - lastpos) + (if must then 0 else 1))")
  show "wf (measure (\<lambda>(ic, r, groups, s, lastpos, must). 2 * (length s - lastpos) + (if must then 0 else 1)))"
    by simp
next
  fix ic r groups s lastpos must_advance x2 st y e c
  assume "search_from ic r s lastpos must_advance = Some x2" "(st, y) = x2" "(e, c) = y"
  then have "search_from ic r s lastpos must_advance = Some (st, e, c)" by simp
  from search_from_bounds [OF this]
  show "((ic, r, groups, s, e, e = st), (ic, r, groups, s, lastpos, must_advance))
        \<in> measure (\<lambda>(ic, r, groups, s, lastpos, must). 2 * (length s - lastpos) + (if must then 0 else 1))"
    by (cases "lastpos \<le> length s") auto
qed

declare split_loop.simps [simp del]

definition re_split :: "bool \<Rightarrow> rx \<Rightarrow> nat \<Rightarrow> string \<Rightarrow> string option list" where
  "re_split ic r groups s = split_loop ic r groups s 0 False"

section \<open>Proxies and scheme comparison\<close>

text \<open>The pattern \<^verbatim>\<open>^(https?://)(.+)\<close> of \<^verbatim>\<open>parseProxy\<close>, searched with \<^verbatim>\<open>re.I\<close>.\<close>

definition proxy_rx :: rx where
  "proxy_rx =
     Seq Bol
       (Seq (Grp 1 (Seq (lits ''http'') (Seq (Rep 0 (Some 1) (Lit CHR ''s'')) (lits ''://''))))
            (Grp 2 (Rep 1 None Dot)))"

text \<open>
  \<^verbatim>\<open>parseProxy(s)\<close>: the assertion fails when the pattern does not match; otherwise the
  result is the first group up to its first colon, and \<open>s\<close> itself.
\<close>

definition parseProxy :: "string \<Rightarrow> error + (string \<times> string)" where
  "parseProxy s =
     (case re_search True proxy_rx s of
        None \<Rightarrow> Inl AssertionError
      | Some (st, e, c) \<Rightarrow>
          (case group s c 1 of
             None \<Rightarrow> Inl AttributeError
           | Some g \<Rightarrow>
               (case py_split CHR '':'' g of
                  [] \<Rightarrow> Inl IndexError
                | x # _ \<Rightarrow> Inr (x, s))))"

text \<open>The pattern \<^verbatim>\<open>^(https?)\<close> of \<^verbatim>\<open>compareSchemes\<close>, searched without flags.\<close>

definition scheme_rx :: rx where
  "scheme_rx = Seq Bol (Grp 1 (Seq (lits ''http'') (Rep 0 (Some 1) (Lit CHR ''s''))))"

text \<open>
  \<^verbatim>\<open>compareSchemes(v0, v1)\<close>. Both searches run before the test; the test is true when
  both matched and their first groups are equal.
\<close>

definition compareSchemes :: "pyval \<Rightarrow> pyval \<Rightarrow> error + bool" where
  "compareSchemes v0 v1 =
     (case re_search_val False scheme_rx v0 of
        Inl err \<Rightarrow> Inl err
      | Inr rv0 \<Rightarrow>
          (case re_search_val False scheme_rx v1 of
             Inl err \<Rightarrow> Inl err
           | Inr rv1 \<Rightarrow>
               (case (rv0, rv1) of
                  (Some (s0, st0, e0, c0), Some (s1, st1, e1, c1)) \<Rightarrow>
                    Inr (group s0 c0 1 = group s1 c1 1)
                | _ \<Rightarrow> Inr False)))"

section \<open>The \<^verbatim>\<open>ipaddress\<close> module\<close>

text \<open>
  \<^verbatim>\<open>parseTarget\<close> calls \<^verbatim>\<open>ipaddress.IPv4Address\<close> and \<^verbatim>\<open>ipaddress.IPv4Network\<close> of the
  Python standard library on strings. This section follows the library's code
  (CPython 3.9.5 and later, where an octet with a leading zero is refused) for a string
  argument. An address is its 32-bit integer; the integers of Python are unbounded, so
  they are natural numbers here.
\<close>

text \<open>\<^verbatim>\<open>_parse_octet\<close>: it raises \<^verbatim>\<open>ValueError\<close>, which the caller turns into \<^verbatim>\<open>AddressValueError\<close>.\<close>

definition parse_octet :: "string \<Rightarrow> error + nat" where
  "parse_octet octet_str =
     (if octet_str = [] then Inl ValueError
      else if \<not> list_all is_digit octet_str then Inl ValueError
      else if 3 < length octet_str then Inl ValueError
      else if octet_str \<noteq> ''0'' \<and> hd octet_str = CHR ''0'' then Inl ValueError
      else if 255 < int_of_digits octet_str then Inl ValueError
      else Inr (int_of_digits octet_str))"

fun parse_octets :: "string list \<Rightarrow> error + nat list" where
  "parse_octets [] = Inr []"
| "parse_octets (x # xs) =
     (case parse_octet x of
        Inl e \<Rightarrow> Inl e
      | Inr b \<Rightarrow> (case parse_octets xs of Inl e \<Rightarrow> Inl e | Inr bs \<Rightarrow> Inr (b # bs)))"

text \<open>\<^verbatim>\<open>int.from_bytes(bs, 'big')\<close>.\<close>

definition from_bytes :: "nat list \<Rightarrow> nat" where
  "from_bytes bs = foldl (\<lambda>n b. 256 * n + b) 0 bs"

text \<open>\<^verbatim>\<open>_ip_int_from_string\<close>.\<close>

definition ip_int_from_string :: "string \<Rightarrow> error + nat" where
  "ip_int_from_string ip_str =
     (if ip_str = [] then Inl AddressValueError
      else (let octets = py_split CHR ''.'' ip_str in
            if length octets \<noteq> 4 then Inl AddressValueError
            else (case parse_octets octets of
                    Inl e \<Rightarrow> Inl AddressValueError
                  | Inr bs \<Rightarrow> Inr (from_bytes bs))))"

text \<open>\<^verbatim>\<open>IPv4Address(address)\<close> for a string: a slash is refused first.\<close>

definition IPv4Address :: "string \<Rightarrow> error + nat" where
  "IPv4Address address =
     (if CHR ''/'' \<in> set address then Inl AddressValueError
      else ip_int_from_string address)"

text \<open>\<^verbatim>\<open>str(IPv4Address(n))\<close>: the four bytes, most significant first, in decimal.\<close>

definition ip_to_str :: "nat \<Rightarrow> string" where
  "ip_to_str n =
     str_nat (n div 16777216 mod 256) @ ''.'' @ str_nat (n div 65536 mod 256) @ ''.'' @
     str_nat (n div 256 mod 256) @ ''.'' @ str_nat (n mod 256)"

definition ALL_ONES :: nat where
  "ALL_ONES = 4294967295"

text \<open>\<^verbatim>\<open>_prefix_from_prefix_string\<close>: a prefix length written in ASCII digits, at most 32.\<close>

definition prefix_from_prefix_string :: "string \<Rightarrow> error + nat" where
  "prefix_from_prefix_string prefixlen_str =
     (if \<not> (prefixlen_str \<noteq> [] \<and> list_all is_digit prefixlen_str) then Inl NetmaskValueError
      else if 32 < int_of_digits prefixlen_str then Inl NetmaskValueError
      else Inr (int_of_digits prefixlen_str))"

text \<open>\<^verbatim>\<open>_count_righthand_zero_bits(number, bits)\<close>: the trailing zero bits, at most \<open>bits\<close>.\<close>

fun count_righthand_zero_bits :: "nat \<Rightarrow> nat \<Rightarrow> nat" where
  "count_righthand_zero_bits number 0 = 0"
| "count_righthand_zero_bits number (Suc bits) =
     (if even number then Suc (count_righthand_zero_bits (number div 2) bits) else 0)"

text \<open>\<^verbatim>\<open>_prefix_from_ip_int\<close>: the prefix length of a netmask of the form \<open>1\<dots>10\<dots>0\<close>.\<close>

definition prefix_from_ip_int :: "nat \<Rightarrow> error + nat" where
  "prefix_from_ip_int ip_int =
     (let trailing_zeroes = count_righthand_zero_bits ip_int 32;
          prefixlen = 32 - trailing_zeroes;
          leading_ones = drop_bit trailing_zeroes ip_int;
          all_ones = 2 ^ prefixlen - 1
      in if leading_ones \<noteq> all_ones then Inl ValueError else Inr prefixlen)"

text \<open>\<^verbatim>\<open>_prefix_from_ip_string\<close>: a netmask or a hostmask in dotted form.\<close>

definition prefix_from_ip_string :: "string \<Rightarrow> error + nat" where
  "prefix_from_ip_string ip_str =
     (case ip_int_from_string ip_str of
        Inl e \<Rightarrow> Inl NetmaskValueError
      | Inr ip_int \<Rightarrow>
          (case prefix_from_ip_int ip_int of
             Inr p \<Rightarrow> Inr p
           | Inl e \<Rightarrow>
               (case prefix_from_ip_int (ip_int XOR ALL_ONES) of
                  Inr p \<Rightarrow> Inr p
                | Inl e' \<Rightarrow> Inl NetmaskValueError)))"

text \<open>\<^verbatim>\<open>_make_netmask\<close> for a string: a prefix length first, a dotted mask otherwise.\<close>

definition make_netmask :: "string \<Rightarrow> error + nat" where
  "make_netmask arg =
     (case prefix_from_prefix_string arg of
        Inr p \<Rightarrow> Inr p
      | Inl e \<Rightarrow> prefix_from_ip_string arg)"

text \<open>\<^verbatim>\<open>_ip_int_from_prefix\<close>: the netmask of a prefix length.\<close>

definition ip_int_from_prefix :: "nat \<Rightarrow> nat" where
  "ip_int_from_prefix prefixlen = ALL_ONES XOR drop_bit prefixlen ALL_ONES"

text \<open>
  \<^verbatim>\<open>IPv4Network(address, strict=False)\<close> for a string: at most one slash; the address is
  parsed before the mask; host bits are masked away. The result is the network address
  and the prefix length.
\<close>

definition IPv4Network :: "string \<Rightarrow> error + (nat \<times> nat)" where
  "IPv4Network address =
     (let parts = py_split CHR ''/'' address in
      if 2 < length parts then Inl AddressValueError
      else (case parts of
              [] \<Rightarrow> Inl IndexError
            | addr # rest \<Rightarrow>
                (case IPv4Address addr of
                   Inl e \<Rightarrow> Inl e
                 | Inr packed \<Rightarrow>
                     (case (case rest of [] \<Rightarrow> Inr 32 | netmask # _ \<Rightarrow> make_netmask netmask) of
                        Inl e \<Rightarrow> Inl e
                      | Inr prefixlen \<Rightarrow>
                          Inr (packed AND ip_int_from_prefix prefixlen, prefixlen)))))"

text \<open>
  Iterating over a network: \<^verbatim>\<open>range(network, broadcast + 1)\<close>, the network and the
  broadcast address included.
\<close>

definition network_addresses :: "nat \<times> nat \<Rightarrow> nat list" where
  "network_addresses net =
     (let network = fst net;
          hostmask = ip_int_from_prefix (snd net) XOR ALL_ONES;
          broadcast = network OR hostmask
      in [network ..< Suc broadcast])"

section \<open>Targets\<close>

text \<open>The parsed command line, as far as the functions below read it.\<close>

record args =
  no_assume_http :: bool
  no_assume_https :: bool
  display_failures :: bool
  process_count :: int

text \<open>\<^verbatim>\<open>assumeIPTarget(t)\<close>; \<open>t\<close> is an address object, formatted by \<^verbatim>\<open>str\<close>.\<close>

definition assumeIPTarget :: "args \<Rightarrow> nat \<Rightarrow> string list" where
  "assumeIPTarget a t =
     (if \<not> no_assume_http a then [''http://'' @ ip_to_str t] else []) @
     (if \<not> no_assume_https a then [''https://'' @ ip_to_str t] else [])"

text \<open>\<^verbatim>\<open>assumeURLTarget(t)\<close>; \<^verbatim>\<open>t.startswith(w)\<close> is \<open>prefix w t\<close>.\<close>

definition assumeURLTarget :: "args \<Rightarrow> string \<Rightarrow> string list" where
  "assumeURLTarget a t =
     (if \<not> no_assume_http a \<and> \<not> prefix ''http'' t \<and> \<not> prefix ''https'' t
      then [''http://'' @ t] else []) @
     (if \<not> no_assume_https a \<and> \<not> prefix ''https'' t \<and> \<not> prefix ''http'' t
      then [''https://'' @ t] else [])"

text \<open>The pattern \<^verbatim>\<open>/[0-9]{,2}$\<close> of \<^verbatim>\<open>parseTarget\<close>, searched without flags.\<close>

definition cidr_rx :: rx where
  "cidr_rx = Seq (Atom (Lit CHR ''/'')) (Seq (Rep 0 (Some 2) Digit) Eol)"

text \<open>The test \<^verbatim>\<open>if re.search('/[0-9]{,2}$',t)\<close> that opens \<^verbatim>\<open>parseTarget\<close>.\<close>

definition is_cidr :: "string \<Rightarrow> bool" where
  "is_cidr t = (re_search False cidr_rx t \<noteq> None)"

text \<open>
  What the variable \<^verbatim>\<open>t\<close> of \<^verbatim>\<open>parseTarget\<close> holds after its first statement: a network,
  an address, or still the string.
\<close>

datatype target = TNetwork "nat \<times> nat" | TAddress nat | TString string

text \<open>
  The first statement of \<^verbatim>\<open>parseTarget\<close>. In the CIDR branch an error of
  \<^verbatim>\<open>IPv4Network\<close> is not caught; in the other branch every error of \<^verbatim>\<open>IPv4Address\<close> is,
  and \<^verbatim>\<open>t\<close> stays the string.
\<close>

definition classifyTarget :: "string \<Rightarrow> error + target" where
  "classifyTarget t =
     (if is_cidr t then
        (case IPv4Network t of Inl e \<Rightarrow> Inl e | Inr net \<Rightarrow> Inr (TNetwork net))
      else
        (case IPv4Address t of Inl e \<Rightarrow> Inr (TString t) | Inr ip \<Rightarrow> Inr (TAddress ip)))"

text \<open>The three cases on the class of \<^verbatim>\<open>t\<close> that end \<^verbatim>\<open>parseTarget\<close>.\<close>

fun expandTarget :: "args \<Rightarrow> target \<Rightarrow> string list" where
  "expandTarget a (TNetwork net) = concat (map (assumeIPTarget a) (network_addresses net))"
| "expandTarget a (TAddress ip) = assumeIPTarget a ip"
| "expandTarget a (TString t) = (let nt = assumeURLTarget a t in if nt = [] then [t] else nt)"

definition parseTarget :: "args \<Rightarrow> string \<Rightarrow> error + string list" where
  "parseTarget a t =
     (case classifyTarget t of
        Inl e \<Rightarrow> Inl e
      | Inr t' \<Rightarrow> Inr (expandTarget a t'))"

section \<open>Headers\<close>

text \<open>
  The pattern \<^verbatim>\<open>^(.+):\s{1,}(.+)$\<close> of \<^verbatim>\<open>parseHeader\<close>, which has two groups.
\<close>

definition header_rx :: rx where
  "header_rx =
     Seq Bol
       (Seq (Grp 1 (Rep 1 None Dot))
         (Seq (Atom (Lit CHR '':''))
           (Seq (Rep 1 None Space)
             (Seq (Grp 2 (Rep 1 None Dot)) Eol))))"

text \<open>
  \<^verbatim>\<open>parseHeader(h)\<close>: the pieces of the split that are neither \<^verbatim>\<open>None\<close> nor empty are
  kept; the assertion wants exactly two of them.
\<close>

definition parseHeader :: "string \<Rightarrow> error + (string \<times> string)" where
  "parseHeader h =
     (let split = concat (map (\<lambda>v. case v of None \<Rightarrow> [] | Some w \<Rightarrow> if w = [] then [] else [w])
                            (re_split False header_rx 2 h))
      in if length split = 2 then Inr (split ! 0, split ! 1) else Inl AssertionError)"

section \<open>Loading the inputs\<close>

text \<open>
  Each command-line value is a file name or a literal. \<open>File lines\<close> stands for a value
  for which \<^verbatim>\<open>isFile\<close> finds a file; \<open>lines\<close> are its lines as iterating over the open file
  yields them, each with its line end. \<open>Plain s\<close> is any other value.
\<close>

datatype arg = File "string list" | Plain string

text \<open>
  The loop over \<^verbatim>\<open>args.proxy_urls\<close>. A line of a file is stripped, parsed, wrapped as
  \<^verbatim>\<open>{scheme: proxy}\<close> and appended unless the list holds an equal dictionary. A literal is
  parsed and wrapped the same way and tested the same way, but what is appended is
  \<^verbatim>\<open>{scheme: proxy}\<close> with \<^verbatim>\<open>proxy\<close> already rebound to the dictionary.
\<close>

fun file_proxies :: "pyval list \<Rightarrow> string list \<Rightarrow> error + pyval list" where
  "file_proxies proxies [] = Inr proxies"
| "file_proxies proxies (line # lines) =
     (case parseProxy (py_strip line) of
        Inl e \<Rightarrow> Inl e
      | Inr (scheme, proxy) \<Rightarrow>
          (let proxy' = Dict1 scheme (Str proxy) in
           if proxy' \<in> set proxies then file_proxies proxies lines
           else file_proxies (proxies @ [proxy']) lines))"

fun load_proxies :: "pyval list \<Rightarrow> arg list \<Rightarrow> error + pyval list" where
  "load_proxies proxies [] = Inr proxies"
| "load_proxies proxies (File lines # ps) =
     (case file_proxies proxies lines of
        Inl e \<Rightarrow> Inl e
      | Inr proxies' \<Rightarrow> load_proxies proxies' ps)"
| "load_proxies proxies (Plain p # ps) =
     (case parseProxy p of
        Inl e \<Rightarrow> Inl e
      | Inr (scheme, proxy) \<Rightarrow>
          (let proxy' = Dict1 scheme (Str proxy) in
           if proxy' \<in> set proxies then load_proxies proxies ps
           else load_proxies (proxies @ [Dict1 scheme proxy']) ps))"

text \<open>
  The loop over \<^verbatim>\<open>args.http_headers\<close>; a line of a file goes to \<^verbatim>\<open>parseHeader\<close> as it
  was read.
\<close>

fun file_headers :: "(string \<rightharpoonup> string) \<Rightarrow> string list \<Rightarrow> error + (string \<rightharpoonup> string)" where
  "file_headers headers [] = Inr headers"
| "file_headers headers (header # lines) =
     (case parseHeader header of
        Inl e \<Rightarrow> Inl e
      | Inr (key, val) \<Rightarrow> file_headers (headers(key \<mapsto> val)) lines)"

fun load_headers :: "(string \<rightharpoonup> string) \<Rightarrow> arg list \<Rightarrow> error + (string \<rightharpoonup> string)" where
  "load_headers headers [] = Inr headers"
| "load_headers headers (File lines # hs) =
     (case file_headers headers lines of
        Inl e \<Rightarrow> Inl e
      | Inr headers' \<Rightarrow> load_headers headers' hs)"
| "load_headers headers (Plain h # hs) =
     (case parseHeader h of
        Inl e \<Rightarrow> Inl e
      | Inr (key, val) \<Rightarrow> load_headers (headers(key \<mapsto> val)) hs)"

section \<open>The request callback\<close>

text \<open>
  \<^verbatim>\<open>requests.get\<close> either returns a response or raises. What it does for a target and a
  proxy dictionary is a parameter of the model.
\<close>

record response =
  status_code :: int
  body :: string

datatype exn = Exception string | RequestException string

datatype outcome = Returns response | Raises exn

type_synonym result = "bool \<times> pyval \<times> string \<times> response option \<times> exn option"

text \<open>
  \<^verbatim>\<open>genericRequestsCallback(proxy, target)\<close>: the tuple
  \<^verbatim>\<open>(success, proxy, target, response, error)\<close>.
\<close>

definition genericRequestsCallback :: "(string \<Rightarrow> pyval \<Rightarrow> outcome) \<Rightarrow> pyval \<Rightarrow> string \<Rightarrow> result" where
  "genericRequestsCallback requests_get proxy target =
     (case requests_get target proxy of
        Raises e \<Rightarrow> (False, proxy, target, None, Some e)
      | Returns resp \<Rightarrow>
          (if status_code resp = 403
           then (False, proxy, target, None, Some (Exception ''403 Forbidden Response''))
           else (True, proxy, target, Some resp, None)))"

section \<open>The dispatch loop\<close>

text \<open>
  \<^verbatim>\<open>list(proxy.values())[0]\<close> on an entry of the proxy list.
\<close>

fun first_value :: "pyval \<Rightarrow> error + pyval" where
  "first_value (Dict1 k v) = Inr v"
| "first_value (Str s) = Inl AttributeError"

text \<open>
  The test \<^verbatim>\<open>compareSchemes(list(proxy.values())[0],target)\<close> of the loop.
\<close>

definition schemes_match :: "pyval \<Rightarrow> string \<Rightarrow> error + bool" where
  "schemes_match proxy target =
     (case first_value proxy of
        Inl e \<Rightarrow> Inl e
      | Inr v \<Rightarrow> compareSchemes v (Str target))"

text \<open>
  An \<^verbatim>\<open>AsyncResult\<close> is an object with an identity; \<open>wid\<close> is that identity, the number of
  submissions made before it.
\<close>

record workitem =
  wid :: nat
  wproxy :: pyval
  wtarget :: string

text \<open>
  The control points of the main loop: the head of the inner \<^verbatim>\<open>for\<close>, the head of the
  \<^verbatim>\<open>while\<close> that waits for a free slot, the call of \<^verbatim>\<open>apply_async\<close>, the final
  \<^verbatim>\<open>while results\<close>, the end of the script, and an uncaught exception.
\<close>

datatype pc = AtFor | AtWhile | AtSubmit | AtDrain | AtEnd | Raised error

text \<open>
  The state of the loop. \<open>todo\<close> holds the pairs the two nested \<^verbatim>\<open>for\<close> loops have still to
  visit, the current one first; \<open>results\<close> is the list of the script; \<open>submitted\<close> and \<open>printed\<close>
  record every call of \<^verbatim>\<open>apply_async\<close> and every result handed to \<^verbatim>\<open>printResult\<close>.
\<close>

record dstate =
  pc :: pc
  todo :: "(pyval \<times> string) list"
  results :: "workitem list"
  submitted :: "workitem list"
  printed :: "workitem list"

text \<open>
  \<^verbatim>\<open>del(results[results.index(res)])\<close> for every \<^verbatim>\<open>res\<close> of \<^verbatim>\<open>to_del\<close>.
\<close>

definition delete_all :: "workitem list \<Rightarrow> workitem list \<Rightarrow> workitem list" where
  "delete_all rs to_del = foldl (\<lambda>acc res. remove1 res acc) rs to_del"

text \<open>
  One step of the loop for the window \<open>N = args.process_count\<close>. Which results are ready
  when the loop looks is not in the script's hands: \<open>ready\<close> is arbitrary in the two scanning
  rules, and the final loop may find its first result ready or not.
\<close>

inductive step :: "int \<Rightarrow> dstate \<Rightarrow> dstate \<Rightarrow> bool" for N :: int where
  for_end:
    "pc s = AtFor \<Longrightarrow> todo s = [] \<Longrightarrow> step N s (s\<lparr>pc := AtDrain\<rparr>)"
| for_skip:
    "pc s = AtFor \<Longrightarrow> todo s = (proxy, target) # rest \<Longrightarrow>
     schemes_match proxy target = Inr False \<Longrightarrow>
     step N s (s\<lparr>todo := rest\<rparr>)"
| for_match:
    "pc s = AtFor \<Longrightarrow> todo s = (proxy, target) # rest \<Longrightarrow>
     schemes_match proxy target = Inr True \<Longrightarrow>
     step N s (s\<lparr>pc := AtWhile\<rparr>)"
| for_raise:
    "pc s = AtFor \<Longrightarrow> todo s = (proxy, target) # rest \<Longrightarrow>
     schemes_match proxy target = Inl e \<Longrightarrow>
     step N s (s\<lparr>pc := Raised e\<rparr>)"
| while_exit:
    "pc s = AtWhile \<Longrightarrow> int (length (results s)) \<noteq> N \<Longrightarrow>
     step N s (s\<lparr>pc := AtSubmit\<rparr>)"
| while_break:
    "pc s = AtWhile \<Longrightarrow> int (length (results s)) = N \<Longrightarrow>
     to_del = filter ready (results s) \<Longrightarrow>
     int (length (delete_all (results s) to_del)) < N \<Longrightarrow>
     step N s (s\<lparr>pc := AtSubmit, results := delete_all (results s) to_del,
                  printed := printed s @ to_del\<rparr>)"
| while_sleep:
    "pc s = AtWhile \<Longrightarrow> int (length (results s)) = N \<Longrightarrow>
     to_del = filter ready (results s) \<Longrightarrow>
     \<not> int (length (delete_all (results s) to_del)) < N \<Longrightarrow>
     step N s (s\<lparr>results := delete_all (results s) to_del, printed := printed s @ to_del\<rparr>)"
| submit:
    "pc s = AtSubmit \<Longrightarrow> todo s = (proxy, target) # rest \<Longrightarrow>
     w = \<lparr>wid = length (submitted s), wproxy = proxy, wtarget = target\<rparr> \<Longrightarrow>
     step N s (s\<lparr>pc := AtFor, todo := rest, results := results s @ [w],
                  submitted := submitted s @ [w]\<rparr>)"
| drain_ready:
    "pc s = AtDrain \<Longrightarrow> results s = res # rest \<Longrightarrow>
     step N s (s\<lparr>results := remove1 res (results s), printed := printed s @ [res]\<rparr>)"
| drain_wait:
    "pc s = AtDrain \<Longrightarrow> results s = res # rest \<Longrightarrow> step N s s"
| drain_end:
    "pc s = AtDrain \<Longrightarrow> results s = [] \<Longrightarrow> step N s (s\<lparr>pc := AtEnd\<rparr>)"

text \<open>
  The state before the first iteration. \<^verbatim>\<open>Pool(n)\<close> raises \<^verbatim>\<open>ValueError\<close> for \<open>n < 1\<close>.
\<close>

definition init :: "int \<Rightarrow> pyval list \<Rightarrow> string list \<Rightarrow> dstate" where
  "init N proxies targets =
     \<lparr>pc = (if N < 1 then Raised ValueError else AtFor),
      todo = List.product proxies targets,
      results = [], submitted = [], printed = []\<rparr>"

inductive reachable :: "int \<Rightarrow> pyval list \<Rightarrow> string list \<Rightarrow> dstate \<Rightarrow> bool"
  for N :: int and proxies :: "pyval list" and targets :: "string list" where
  start: "reachable N proxies targets (init N proxies targets)"
| after: "reachable N proxies targets s \<Longrightarrow> step N s s' \<Longrightarrow> reachable N proxies targets s'"

section \<open>Definitions used in the statements and proofs\<close>

text \<open>
  The spec's rule for the scheme of a string: the longest of the tokens \<^verbatim>\<open>http\<close> and
  \<^verbatim>\<open>https\<close> that the string begins with.
\<close>

definition leading_scheme :: "string \<Rightarrow> string option" where
  "leading_scheme v =
     (if prefix ''https'' v then Some ''https''
      else if prefix ''http'' v then Some ''http''
      else None)"

text \<open>
  What \<^verbatim>\<open>.+\<close> needs of the text in front of it: a first character, and not a newline.
\<close>

definition dot_ok :: "string \<Rightarrow> bool" where
  "dot_ok r = (case r of [] \<Rightarrow> False | x # _ \<Rightarrow> x \<noteq> newline)"

text \<open>
  Matching a literal under \<^verbatim>\<open>re.I\<close>: \<open>ci w pre\<close> holds when \<open>pre\<close> is \<open>w\<close> up to the case
  of its letters; \<open>scheme_ok x\<close> when \<open>x\<close> is \<^verbatim>\<open>http\<close> or \<^verbatim>\<open>https\<close> in that sense.
\<close>

definition lower_letters :: string where
  "lower_letters = ''abcdefghijklmnopqrstuvwxyz''"

definition ci :: "string \<Rightarrow> string \<Rightarrow> bool" where
  "ci w pre = (map ascii_lower pre = map ascii_lower w)"

definition scheme_ok :: "string \<Rightarrow> bool" where
  "scheme_ok x = (map ascii_lower x = ''http'' \<or> map ascii_lower x = ''https'')"

text \<open>
  The patterns of \<^verbatim>\<open>parseProxy\<close> and \<^verbatim>\<open>parseHeader\<close> after their \<^verbatim>\<open>^\<close>.
\<close>

definition proxy_body :: rx where
  "proxy_body = Seq (Grp 1 (Seq (lits ''http'') (Seq (Rep 0 (Some 1) (Lit CHR ''s'')) (lits ''://''))))
            (Grp 2 (Rep 1 None Dot))"

definition header_body :: rx where
  "header_body =
       (Seq (Grp 1 (Rep 1 None Dot))
         (Seq (Atom (Lit CHR '':''))
           (Seq (Rep 1 None Space)
             (Seq (Grp 2 (Rep 1 None Dot)) Eol))))"

text \<open>
  The invariant of the window: at most \<open>N\<close> results, and fewer than \<open>N\<close> where the loop
  is about to submit.
\<close>

definition window_inv :: "int \<Rightarrow> dstate \<Rightarrow> bool" where
  "window_inv N s =
     (int (length (results s)) \<le> N \<and> (pc s = AtSubmit \<longrightarrow> int (length (results s)) < N))"

text \<open>
  A run of the loop for one proxy, one target and a window of one, after its only submission.
\<close>

definition proxies1 :: "pyval list" where
  "proxies1 = [Dict1 ''http'' (Str ''http://p1'')]"

definition state1 :: dstate where
  "state1 =
     \<lparr>pc = AtFor, todo = [],
      results = [\<lparr>wid = 0, wproxy = Dict1 ''http'' (Str ''http://p1''), wtarget = ''http://t1''\<rparr>],
      submitted = [\<lparr>wid = 0, wproxy = Dict1 ''http'' (Str ''http://p1''), wtarget = ''http://t1''\<rparr>],
      printed = []\<rparr>"

text \<open>
  The pairs of the proxy list and the target list that pass the test of the loop, and the
  pair a submitted item was made from.
\<close>

definition pair_of :: "workitem \<Rightarrow> pyval \<times> string" where
  "pair_of w = (wproxy w, wtarget w)"

definition eligible :: "pyval \<times> string \<Rightarrow> bool" where
  "eligible pt = (schemes_match (fst pt) (snd pt) = Inr True)"

text \<open>
  What the loop has done so far: the pairs already visited, of which exactly the ones
  that pass the test were submitted, each as an item of its own.
\<close>

definition progress_inv :: "pyval list \<Rightarrow> string list \<Rightarrow> dstate \<Rightarrow> bool" where
  "progress_inv P T s =
     (\<exists>seen. List.product P T = seen @ todo s \<and>
        map pair_of (submitted s) = filter eligible seen \<and>
        map wid (submitted s) = [0 ..< length (submitted s)] \<and>
        (pc s = AtWhile \<or> pc s = AtSubmit \<longrightarrow> (\<exists>pt rest. todo s = pt # rest \<and> eligible pt)) \<and>
        (pc s = AtDrain \<or> pc s = AtEnd \<longrightarrow> todo s = []))"

text \<open>
  The proxy list that \<^verbatim>\<open>--proxy-urls http://p FILE\<close> builds when the file holds the one
  line \<^verbatim>\<open>http://q\<close>.
\<close>

definition proxies2 :: "pyval list" where
  "proxies2 = [Dict1 ''http'' (Dict1 ''http'' (Str ''http://p'')), Dict1 ''http'' (Str ''http://q'')]"

text \<open>
  The claim's reading of a CIDR string: it ends with a slash and a prefix length from 0
  to 32. The command line with no option set.
\<close>

definition ends_with_prefix_length :: "string \<Rightarrow> bool" where
  "ends_with_prefix_length t = list_ex (\<lambda>n. suffix (CHR ''/'' # str_nat n) t) [0 ..< 33]"

definition args0 :: args where
  "args0 = \<lparr>no_assume_http = False, no_assume_https = False, display_failures = False,
            process_count = 4\<rparr>"

text \<open>
  What the pattern of \<^verbatim>\<open>parseTarget\<close> matches: a slash, at most two digits, the end.
\<close>

definition cidr_tail :: "string \<Rightarrow> bool" where
  "cidr_tail s = (\<exists>ds nl. s = CHR ''/'' # ds @ nl \<and> length ds \<le> 2 \<and> list_all is_digit ds \<and>
                    (nl = [] \<or> nl = [newline]))"

section \<open>Proofs: the patterns\<close>

lemma rmatch_lits:
  "rmatch False (lits w) p rest c =
     (if prefix w rest then [(p + length w, drop (length w) rest, c)] else [])"
  by (induction w arbitrary: p rest) (auto split: list.splits)

lemma rmatch_opt:
  "rmatch ic (Rep 0 (Some (Suc 0)) a) p rest c =
     (case rest of
        [] \<Rightarrow> [(p, rest, c)]
      | x # xs \<Rightarrow> if cls_ok ic a x then [(Suc p, xs, c), (p, rest, c)] else [(p, rest, c)])"
  by (cases rest) (simp_all add: Let_def)

lemma prefix_https: "prefix ''https'' s \<longleftrightarrow> prefix ''http'' s \<and> (\<exists>r. drop 4 s = CHR ''s'' # r)"
  by (auto simp: prefix_def)

lemma scheme_search:
  "re_search False scheme_rx s =
     (if prefix ''https'' s then Some (0, 5, [(1, 0, 5)])
      else if prefix ''http'' s then Some (0, 4, [(1, 0, 4)])
      else None)"
  unfolding re_search_def scheme_rx_def first_match_Bol
  by (auto simp: rmatch_lits rmatch_opt prefix_https simp del: rmatch.simps(5) split: list.splits)

lemma ascii_lower_cases: "ascii_lower x = x \<or> ascii_lower x \<in> set lower_letters"
proof (cases "map_of (zip ''ABCDEFGHIJKLMNOPQRSTUVWXYZ'' ''abcdefghijklmnopqrstuvwxyz'') x")
  case None
  then show ?thesis by (simp add: ascii_lower_def)
next
  case (Some l)
  then have "l \<in> set ''abcdefghijklmnopqrstuvwxyz''"
    by (meson map_of_SomeD set_zip_rightD)
  with Some show ?thesis by (simp add: ascii_lower_def lower_letters_def)
qed

lemma lower_facts:
  "ascii_lower CHR ''h'' = CHR ''h''" "ascii_lower CHR ''t'' = CHR ''t''"
  "ascii_lower CHR ''p'' = CHR ''p''" "ascii_lower CHR ''s'' = CHR ''s''"
  "ascii_lower CHR '':'' = CHR '':''" "ascii_lower CHR ''/'' = CHR ''/''"
  by (simp_all add: ascii_lower_def)

lemma cls_ok_Lit_ic: "cls_ok True (Lit a) x \<longleftrightarrow> ascii_lower x = ascii_lower a"
  by auto

lemma lits_ic_iff:
  "list_all2 (\<lambda>a x. cls_ok True (Lit a) x) w pre \<longleftrightarrow> map ascii_lower pre = map ascii_lower w"
proof -
  have "list_all2 (\<lambda>a x. cls_ok True (Lit a) x) w pre \<longleftrightarrow>
        list_all2 (\<lambda>a x. ascii_lower a = ascii_lower x) w pre"
    by (auto simp: cls_ok_Lit_ic elim!: list_all2_mono)
  also have "\<dots> \<longleftrightarrow> list_all2 (=) (map ascii_lower w) (map ascii_lower pre)"
    by (simp add: list_all2_map1 list_all2_map2)
  also have "\<dots> \<longleftrightarrow> map ascii_lower pre = map ascii_lower w"
    by (auto simp: list.rel_eq)
  finally show ?thesis .
qed

lemma fixed_literal:
  assumes "map ascii_lower pre = w" "set w \<inter> set lower_letters = {}"
  shows "pre = w"
proof -
  have "\<forall>x \<in> set pre. ascii_lower x = x"
  proof
    fix x assume "x \<in> set pre"
    then have "ascii_lower x \<in> set w" using assms(1) by auto
    with assms(2) have "ascii_lower x \<notin> set lower_letters" by auto
    then show "ascii_lower x = x" using ascii_lower_cases [of x] by auto
  qed
  then have "map ascii_lower pre = pre" by (simp add: map_idI)
  with assms(1) show ?thesis by simp
qed

lemma py_split_hd: "\<exists>ws. py_split c s = takeWhile (\<lambda>x. x \<noteq> c) s # ws"
  by (induction s) auto

lemma proxy_rx_body: "proxy_rx = Seq Bol proxy_body"
  by (simp add: proxy_rx_def proxy_body_def)

lemma header_rx_body: "header_rx = Seq Bol header_body"
  by (simp add: header_rx_def header_body_def)

lemma no_colon:
  assumes "map ascii_lower x = ''http'' \<or> map ascii_lower x = ''https''"
  shows "CHR '':'' \<notin> set x"
proof
  assume "CHR '':'' \<in> set x"
  then have "ascii_lower CHR '':'' \<in> set (map ascii_lower x)" by simp
  with assms show False by (auto simp: lower_facts)
qed

lemma dot_ok_iff: "dot_ok r \<longleftrightarrow> (\<exists>pre r'. r = pre @ r' \<and> 1 \<le> length pre \<and> list_all (cls_ok ic Dot) pre)"
proof
  assume "dot_ok r"
  then obtain x xs where "r = [x] @ xs" "x \<noteq> newline"
    by (auto simp: dot_ok_def split: list.splits)
  then show "\<exists>pre r'. r = pre @ r' \<and> 1 \<le> length pre \<and> list_all (cls_ok ic Dot) pre"
    by (intro exI [of _ "[x]"] exI [of _ xs]) simp
next
  assume "\<exists>pre r'. r = pre @ r' \<and> 1 \<le> length pre \<and> list_all (cls_ok ic Dot) pre"
  then obtain pre r' where "r = pre @ r'" "1 \<le> length pre" "list_all (cls_ok ic Dot) pre"
    by blast
  then show "dot_ok r"
    by (cases pre) (auto simp: dot_ok_def)
qed

lemma mem_lits_ci:
  "(e, r', c') \<in> set (rmatch True (lits w) p rest c) \<longleftrightarrow>
     (c' = c \<and> e = p + length w \<and> (\<exists>pre. rest = pre @ r' \<and> ci w pre))"
  by (simp only: mem_lits lits_ic_iff ci_def)

lemma ci_refl: "ci w w"
  by (simp add: ci_def)

lemma search_from_Bol_pos:
  "0 < start \<Longrightarrow> search_from ic (Seq Bol r) s start must = None"
  by (simp add: search_from_def first_match_Bol_pos)

lemma split_loop_Bol_pos:
  "0 < start \<Longrightarrow> split_loop ic (Seq Bol r) groups s start must = [Some (drop start s)]"
  by (subst split_loop.simps) (simp add: search_from_Bol_pos)

lemma search_from_Bol0:
  "search_from ic (Seq Bol r) s 0 False =
     (case rmatch ic r 0 s [] of [] \<Rightarrow> None | (e, _, c) # _ \<Rightarrow> Some (0, e, c))"
  by (cases "rmatch ic r 0 s []") (auto simp: search_from_def first_match_Bol_pos split_def)

lemma split_Bol_cases:
  obtains (none) "rmatch ic r 0 s [] = []" "re_split ic (Seq Bol r) groups s = [Some s]"
  | (some) e r' c where "(e, r', c) \<in> set (rmatch ic r 0 s [])"
      "re_split ic (Seq Bol r) groups s =
         Some [] # map (group s c) [1 ..< Suc groups] @
         (if e = 0 then split_loop ic (Seq Bol r) groups s 0 True else [Some (drop e s)])"
proof (cases "rmatch ic r 0 s []")
  case Nil
  then have "re_split ic (Seq Bol r) groups s = [Some s]"
    unfolding re_split_def by (subst split_loop.simps) (simp add: search_from_Bol0)
  with Nil show ?thesis by (rule none)
next
  case (Cons m ms)
  obtain e r' c where m: "m = (e, r', c)" by (cases m)
  with Cons have mem: "(e, r', c) \<in> set (rmatch ic r 0 s [])" by simp
  have "re_split ic (Seq Bol r) groups s =
         Some [] # map (group s c) [1 ..< Suc groups] @
         (if e = 0 then split_loop ic (Seq Bol r) groups s 0 True else [Some (drop e s)])"
    unfolding re_split_def
    by (subst split_loop.simps) (simp add: search_from_Bol0 Cons m split_loop_Bol_pos del: upt_Suc)
  with mem show ?thesis by (rule some)
qed

declare rmatch.simps [simp del] lits.simps [simp del]

lemma mem_SeqI:
  "(e1, r1, c1) \<in> set (rmatch ic a p rest c) \<Longrightarrow> x \<in> set (rmatch ic b e1 r1 c1) \<Longrightarrow>
   x \<in> set (rmatch ic (Seq a b) p rest c)"
  unfolding mem_Seq by blast

lemma mem_GrpI:
  "(e, r', c1) \<in> set (rmatch ic r p rest c) \<Longrightarrow>
   (e, r', (g, p, e) # c1) \<in> set (rmatch ic (Grp g r) p rest c)"
  unfolding mem_Grp by blast

lemma mem_litsI:
  "ci w pre \<Longrightarrow> (p + length w, r', c) \<in> set (rmatch True (lits w) p (pre @ r') c)"
  unfolding mem_lits_ci by blast

lemma mem_RepI:
  "m \<le> length pre \<Longrightarrow> (case n of None \<Rightarrow> True | Some mx \<Rightarrow> length pre \<le> mx) \<Longrightarrow>
   list_all (cls_ok ic a) pre \<Longrightarrow>
   (p + length pre, r', c) \<in> set (rmatch ic (Rep m n a) p (pre @ r') c)"
  unfolding mem_Rep by blast

lemma proxy_member_fwd:
  assumes "(e, r', c) \<in> set (rmatch True proxy_body 0 s [])"
  shows "\<exists>p1 p2 p3 p4. s = p1 @ p2 @ p3 @ p4 @ r' \<and>
      ci ''http'' p1 \<and> length p2 \<le> 1 \<and> list_all (cls_ok True (Lit CHR ''s'')) p2 \<and>
      ci ''://'' p3 \<and> 1 \<le> length p4 \<and> list_all (cls_ok True Dot) p4 \<and>
      e = 4 + length p2 + 3 + length p4 \<and>
      c = [(2, 4 + length p2 + 3, e), (1, 0, 4 + length p2 + 3)]"
  using assms
  unfolding proxy_body_def mem_Seq mem_Grp mem_lits_ci mem_Rep
  apply (elim exE conjE)
  apply simp
  apply blast
  done

lemma proxy_member_bwd:
  assumes "ci ''http'' p1" "length p2 \<le> 1" "list_all (cls_ok True (Lit CHR ''s'')) p2"
    "1 \<le> length p4" "list_all (cls_ok True Dot) p4"
  shows "(4 + length p2 + 3 + length p4, r',
          [(2, 4 + length p2 + 3, 4 + length p2 + 3 + length p4), (1, 0, 4 + length p2 + 3)])
         \<in> set (rmatch True proxy_body 0 (p1 @ p2 @ ''://'' @ p4 @ r') [])"
proof -
  have a: "(4, p2 @ ''://'' @ p4 @ r', [])
             \<in> set (rmatch True (lits ''http'') 0 (p1 @ p2 @ ''://'' @ p4 @ r') [])"
    using mem_litsI [OF assms(1), of 0 "p2 @ ''://'' @ p4 @ r'" "[]"]
    by (simp add: eval_nat_numeral)
  have b: "(4 + length p2, ''://'' @ p4 @ r', [])
             \<in> set (rmatch True (Rep 0 (Some 1) (Lit CHR ''s'')) 4 (p2 @ ''://'' @ p4 @ r') [])"
    using assms(2,3) by (intro mem_RepI) simp_all
  have c: "(4 + length p2 + 3, p4 @ r', [])
             \<in> set (rmatch True (lits ''://'') (4 + length p2) (''://'' @ p4 @ r') [])"
    using mem_litsI [OF ci_refl, of "4 + length p2" "''://''" "p4 @ r'" "[]"]
    by (simp add: eval_nat_numeral)
  have d: "(4 + length p2 + 3 + length p4, r', [(1, 0, 4 + length p2 + 3)])
             \<in> set (rmatch True (Rep 1 None Dot) (4 + length p2 + 3) (p4 @ r')
                      [(1, 0, 4 + length p2 + 3)])"
    using assms(4,5) by (intro mem_RepI) simp_all
  show ?thesis
    unfolding proxy_body_def
    by (rule mem_SeqI [OF mem_GrpI [OF mem_SeqI [OF a mem_SeqI [OF b c]]] mem_GrpI [OF d]])
qed

lemma takeWhile_upto: "c \<notin> set x \<Longrightarrow> takeWhile (\<lambda>y. y \<noteq> c) (x @ c # r) = x"
  by (induction x) auto

lemma takeWhile_scheme:
  assumes "scheme_ok x"
  shows "takeWhile (\<lambda>c. c \<noteq> CHR '':'') (x @ ''://'' @ r) = x"
proof -
  have "CHR '':'' \<notin> set x"
    using assms unfolding scheme_ok_def by (rule no_colon)
  then show ?thesis
    by (simp add: takeWhile_upto)
qed

lemma ci_http_length:
  assumes "ci ''http'' p1"
  shows "length p1 = 4"
proof -
  have "length (map ascii_lower p1) = length (map ascii_lower ''http'')"
    using assms unfolding ci_def by (rule arg_cong)
  then show ?thesis by simp
qed

lemma proxy_member_scheme:
  assumes "(e, r', c) \<in> set (rmatch True proxy_body 0 s [])"
  shows "\<exists>x r. s = x @ ''://'' @ r \<and> scheme_ok x \<and> dot_ok r \<and> group s c 1 = Some (x @ ''://'')"
proof -
  from proxy_member_fwd [OF assms] obtain p1 p2 p3 p4 where d:
      "s = p1 @ p2 @ p3 @ p4 @ r'"
      "ci ''http'' p1" "length p2 \<le> 1" "list_all (cls_ok True (Lit CHR ''s'')) p2"
      "ci ''://'' p3" "1 \<le> length p4" "list_all (cls_ok True Dot) p4"
      "e = 4 + length p2 + 3 + length p4"
      "c = [(2, 4 + length p2 + 3, e), (1, 0, 4 + length p2 + 3)]"
    by (elim exE conjE) (rule that; assumption)
  from d(5) have "map ascii_lower p3 = ''://''"
    unfolding ci_def by (simp add: lower_facts)
  then have p3: "p3 = ''://''"
    by (rule fixed_literal) (simp add: lower_letters_def)
  have l1: "length p1 = 4"
    using d(2) by (rule ci_http_length)
  from d(2) have p1: "map ascii_lower p1 = ''http''"
    unfolding ci_def by (simp add: lower_facts)
  have p2: "map ascii_lower p2 = [] \<or> map ascii_lower p2 = ''s''"
  proof (cases p2)
    case Nil
    then show ?thesis by simp
  next
    case (Cons a as)
    with d(3) have "as = []" by simp
    with Cons d(4) show ?thesis by (auto simp: lower_facts)
  qed
  have ok: "scheme_ok (p1 @ p2)"
    using p2 by (rule disjE) (simp_all add: scheme_ok_def p1)
  have dk: "dot_ok (p4 @ r')"
    unfolding dot_ok_iff [of _ True] using d(6,7)
    by (intro exI [of _ p4] exI [of _ r']) simp
  have "group s c 1 = Some (take (4 + length p2 + 3) s)"
    by (simp add: group_def d(9))
  also have "take (4 + length p2 + 3) s = (p1 @ p2) @ ''://''"
    using l1 by (simp add: d(1) p3)
  finally show ?thesis
    using ok dk d(1) p3 by (intro exI [of _ "p1 @ p2"] exI [of _ "p4 @ r'"]) simp
qed

lemma proxy_member_ex:
  assumes "scheme_ok x" "dot_ok r"
  shows "rmatch True proxy_body 0 (x @ ''://'' @ r) [] \<noteq> []"
proof -
  define p1 where "p1 = take 4 x"
  define p2 where "p2 = drop 4 x"
  have x: "x = p1 @ p2" by (simp add: p1_def p2_def)
  from assms(1) have "length (map ascii_lower x) = 4 \<or> length (map ascii_lower x) = 5"
    unfolding scheme_ok_def by auto
  then have l: "length x = 4 \<or> length x = 5"
    by simp
  have m1: "ci ''http'' p1"
    using assms(1) unfolding scheme_ok_def ci_def p1_def take_map [symmetric]
    by (auto simp: lower_facts)
  have "map ascii_lower p2 = [] \<or> map ascii_lower p2 = ''s''"
    using assms(1) unfolding scheme_ok_def p2_def drop_map [symmetric] by auto
  then have m2: "length p2 \<le> 1" "list_all (cls_ok True (Lit CHR ''s'')) p2"
    by (cases p2; auto simp: lower_facts)+
  from assms(2) obtain p4 r' where r: "r = p4 @ r'" "1 \<le> length p4" "list_all (cls_ok True Dot) p4"
    unfolding dot_ok_iff [of r True] by (elim exE conjE) (rule that; assumption)
  have "s \<in> set (rmatch True proxy_body 0 (x @ ''://'' @ r) []) \<Longrightarrow> ?thesis" for s
    by auto
  then show ?thesis
    using proxy_member_bwd [OF m1 m2 r(2,3), of r'] unfolding x r(1) by simp
qed

lemma parseProxy_eq:
  "parseProxy s =
     (if \<exists>x r. s = x @ ''://'' @ r \<and> scheme_ok x \<and> dot_ok r
      then Inr (takeWhile (\<lambda>c. c \<noteq> CHR '':'') s, s)
      else Inl AssertionError)"
proof (cases rule: search_Bol_cases [of True proxy_body s])
  case none
  have "\<not> (\<exists>x r. s = x @ ''://'' @ r \<and> scheme_ok x \<and> dot_ok r)"
  proof
    assume "\<exists>x r. s = x @ ''://'' @ r \<and> scheme_ok x \<and> dot_ok r"
    then obtain x r where "s = x @ ''://'' @ r" "scheme_ok x" "dot_ok r"
      by (elim exE conjE) (rule that; assumption)
    with proxy_member_ex [of x r] none(1) show False
      by simp
  qed
  with none show ?thesis
    by (simp add: parseProxy_def proxy_rx_body)
next
  case (some e r' c)
  from proxy_member_scheme [OF some(1)] obtain x r where
    x: "s = x @ ''://'' @ r" "scheme_ok x" "dot_ok r" "group s c 1 = Some (x @ ''://'')"
    by (elim exE conjE) (rule that; assumption)
  obtain ws where "py_split CHR '':'' (x @ ''://'') = takeWhile (\<lambda>c. c \<noteq> CHR '':'') (x @ ''://'' @ []) # ws"
    using py_split_hd [of "CHR '':''" "x @ ''://''"] by auto
  then have "py_split CHR '':'' (x @ ''://'') = x # ws"
    unfolding takeWhile_scheme [OF x(2)] .
  moreover have "takeWhile (\<lambda>c. c \<noteq> CHR '':'') s = x"
    unfolding x(1) by (rule takeWhile_scheme [OF x(2)])
  ultimately show ?thesis
    using x some(2) by (auto simp: parseProxy_def proxy_rx_body)
qed

lemma parseProxy_Inr:
  assumes "parseProxy s = Inr (x, a)"
  shows "a = s \<and> scheme_ok x \<and> (\<exists>r. s = x @ ''://'' @ r \<and> dot_ok r)"
proof -
  from assms obtain x' r where x': "s = x' @ ''://'' @ r" "scheme_ok x'" "dot_ok r"
    and res: "x = takeWhile (\<lambda>c. c \<noteq> CHR '':'') s" "a = s"
    unfolding parseProxy_eq by (auto split: if_splits)
  have "x = x'"
    unfolding res(1) x'(1) by (rule takeWhile_scheme [OF x'(2)])
  with x' res show ?thesis by auto
qed

lemma parseProxy_accept:
  assumes "scheme_ok x" "dot_ok r"
  shows "parseProxy (x @ ''://'' @ r) = Inr (x, x @ ''://'' @ r)"
  unfolding parseProxy_eq using assms takeWhile_scheme [OF assms(1), of r] by auto

lemma parseProxy_Inl: "parseProxy s = Inl e \<Longrightarrow> e = AssertionError"
  unfolding parseProxy_eq by (auto split: if_splits)

lemma parseProxy_http_p: "parseProxy ''http://p'' = Inr (''http'', ''http://p'')"
  using parseProxy_accept [of "''http''" "''p''"]
  by (simp add: scheme_ok_def dot_ok_def lower_facts newline_def)

lemma header_member:
  assumes "(e, r', c) \<in> set (rmatch False header_body 0 h [])"
  shows "\<exists>g1 mid g2. h = g1 @ mid @ g2 @ r' \<and> g1 \<noteq> [] \<and> g2 \<noteq> [] \<and> list_all (cls_ok False Dot) g2 \<and>
           (r' = [] \<or> r' = [newline]) \<and> e = length g1 + length mid + length g2 \<and>
           c = [(2, length g1 + length mid, e), (1, 0, length g1)]"
  using assms unfolding header_body_def mem_Seq mem_Grp mem_Rep mem_Atom mem_Eol
  apply (elim exE conjE)
  apply simp
  apply (rule_tac x = pre in exI)
  apply simp
  apply (rule_tac x = "CHR '':'' # prea" in exI)
  apply (rule_tac x = preb in exI)
  apply auto
  done

lemma parseHeader_newline:
  assumes "h \<noteq> []" "last h = newline"
  shows "parseHeader h = Inl AssertionError"
proof (cases rule: split_Bol_cases [of False header_body h 2])
  case none
  with assms(1) show ?thesis
    by (simp add: parseHeader_def header_rx_body)
next
  case (some e r' c)
  from header_member [OF some(1)] obtain g1 mid g2 where d:
      "h = g1 @ mid @ g2 @ r'" "g1 \<noteq> []" "g2 \<noteq> []" "list_all (cls_ok False Dot) g2"
      "r' = [] \<or> r' = [newline]" "e = length g1 + length mid + length g2"
      "c = [(2, length g1 + length mid, e), (1, 0, length g1)]"
    by (elim exE conjE) (rule that; assumption)
  have "r' \<noteq> []"
  proof
    assume "r' = []"
    with d(1,3) have "last h = last g2" by simp
    moreover from d(3,4) have "last g2 \<noteq> newline"
      by (metis cls_ok.simps(2) last_in_set list_all_iff)
    ultimately show False using assms(2) by simp
  qed
  with d(5) have r': "r' = [newline]" by simp
  have e0: "e \<noteq> 0" using d(2,6) by simp
  have de: "drop e h = r'" unfolding d(1) d(6) by simp
  have g1: "group h c (Suc 0) = Some g1" unfolding d(7) group_def d(1) by simp
  have g2: "group h c 2 = Some g2" unfolding d(7) group_def d(1) d(6) by simp
  have u: "[1 ..< Suc 2] = [1, 2]"
    by (simp add: upt_rec)
  show ?thesis
    unfolding parseHeader_def header_rx_body some(2) u
    using d(2,3) by (simp add: e0 de g1 g2 r')
qed

lemma parseHeader_Inl: "parseHeader h = Inl e \<Longrightarrow> e = AssertionError"
  by (auto simp: parseHeader_def Let_def split: if_splits)

lemma leading_scheme_http:
  assumes "\<exists>r. s = ''http'' @ ''://'' @ r"
  shows "leading_scheme s = Some ''http''"
  using assms by (auto simp: leading_scheme_def)

lemma leading_scheme_https:
  assumes "\<exists>r. s = ''https'' @ ''://'' @ r"
  shows "leading_scheme s = Some ''https''"
  using assms by (auto simp: leading_scheme_def)

lemma compareSchemes_Str:
  "compareSchemes (Str v0) (Str v1) =
     Inr (leading_scheme v0 \<noteq> None \<and> leading_scheme v0 = leading_scheme v1)"
  by (auto simp: compareSchemes_def re_search_def [symmetric] scheme_search leading_scheme_def
        group_def prefix_def)

lemma first_match_None_iff:
  "first_match ic r p rest = None \<longleftrightarrow>
     (\<forall>pre suf. rest = pre @ suf \<longrightarrow> rmatch ic r (p + length pre) suf [] = [])"
proof (induction rest arbitrary: p)
  case Nil
  show ?case by (auto split: list.splits)
next
  case (Cons x xs)
  show ?case
  proof (cases "rmatch ic r p (x # xs) []")
    case Nil
    have "(\<forall>pre suf. x # xs = pre @ suf \<longrightarrow> rmatch ic r (p + length pre) suf [] = []) \<longleftrightarrow>
          (\<forall>pre suf. xs = pre @ suf \<longrightarrow> rmatch ic r (Suc p + length pre) suf [] = [])"
      (is "?A \<longleftrightarrow> ?B")
    proof
      assume a: ?A
      show ?B
      proof (intro allI impI)
        fix pre suf assume "xs = pre @ suf"
        then have "x # xs = (x # pre) @ suf" by simp
        from a [rule_format, OF this] show "rmatch ic r (Suc p + length pre) suf [] = []" by simp
      qed
    next
      assume b: ?B
      show ?A
      proof (intro allI impI)
        fix pre suf assume e: "x # xs = pre @ suf"
        show "rmatch ic r (p + length pre) suf [] = []"
        proof (cases pre)
          case Nil
          with e Nil show ?thesis using \<open>rmatch ic r p (x # xs) [] = []\<close> by simp
        next
          case (Cons y ys)
          with e have "xs = ys @ suf" by simp
          from b [rule_format, OF this] Cons show ?thesis by simp
        qed
      qed
    qed
    with Nil Cons.IH [of "Suc p"] show ?thesis by simp
  next
    case (Cons m ms)
    then have "rmatch ic r (p + length ([] :: string)) (x # xs) [] \<noteq> []" by simp
    then have "\<not> (\<forall>pre suf. x # xs = pre @ suf \<longrightarrow> rmatch ic r (p + length pre) suf [] = [])"
      by (metis append_Nil)
    with Cons show ?thesis by (simp split: prod.splits)
  qed
qed

lemma cls_ok_Digit: "cls_ok ic Digit = is_digit"
  by (rule ext) simp

lemma cidr_nonempty: "rmatch False cidr_rx p rest [] \<noteq> [] \<longleftrightarrow> cidr_tail rest"
proof
  assume "rmatch False cidr_rx p rest [] \<noteq> []"
  then obtain m ms where eq: "rmatch False cidr_rx p rest [] = m # ms"
    by (cases "rmatch False cidr_rx p rest []") auto
  obtain e r' c where m: "m = (e, r', c)"
    by (cases m)
  have "(e, r', c) \<in> set (rmatch False cidr_rx p rest [])"
    unfolding eq m by simp
  then obtain ds where "rest = CHR ''/'' # ds @ r'" "length ds \<le> 2"
      "list_all (cls_ok False Digit) ds" "r' = [] \<or> r' = [newline]"
    unfolding cidr_rx_def mem_Seq mem_Atom mem_Rep mem_Eol
    by auto
  then show "cidr_tail rest"
    unfolding cidr_tail_def cls_ok_Digit
    by (intro exI [of _ ds] exI [of _ r']) simp
next
  assume "cidr_tail rest"
  then obtain ds nl where d: "rest = CHR ''/'' # ds @ nl" "length ds \<le> 2" "list_all is_digit ds"
      "nl = [] \<or> nl = [newline]"
    unfolding cidr_tail_def by (elim exE conjE) (rule that; assumption)
  have a: "(Suc p, ds @ nl, []) \<in> set (rmatch False (Atom (Lit CHR ''/'')) p rest [])"
    unfolding mem_Atom d(1) by simp
  have b: "(Suc p + length ds, nl, []) \<in> set (rmatch False (Rep 0 (Some 2) Digit) (Suc p) (ds @ nl) [])"
    using d(2,3) by (intro mem_RepI) (simp_all add: cls_ok_Digit)
  have c: "(Suc p + length ds, nl, []) \<in> set (rmatch False Eol (Suc p + length ds) nl [])"
    unfolding mem_Eol using d(4) by simp
  have "(Suc p + length ds, nl, []) \<in> set (rmatch False cidr_rx p rest [])"
    unfolding cidr_rx_def by (rule mem_SeqI [OF a mem_SeqI [OF b c]])
  then show "rmatch False cidr_rx p rest [] \<noteq> []"
    by auto
qed

lemma is_cidr_iff: "is_cidr t \<longleftrightarrow> (\<exists>pre suf. t = pre @ suf \<and> cidr_tail suf)"
  unfolding is_cidr_def re_search_def first_match_None_iff
  by (auto simp: cidr_nonempty)


lemma not_lower_http_scheme:
  assumes "scheme_ok x" "take 4 x \<noteq> ''http''"
  shows "leading_scheme (x @ ''://'' @ r) = None"
proof -
  from assms(1) have "length (map ascii_lower x) = 4 \<or> length (map ascii_lower x) = 5"
    unfolding scheme_ok_def by auto
  then have "4 \<le> length x" by auto
  then have "take 4 (x @ ''://'' @ r) = take 4 x" by simp
  moreover have "take 4 s = ''http''" if "prefix ''http'' s" for s :: string
    using that by (auto simp: prefix_def)
  ultimately have "\<not> prefix ''http'' (x @ ''://'' @ r)"
    using assms(2) by metis
  moreover have "prefix ''https'' s \<Longrightarrow> prefix ''http'' s" for s :: string
    by (auto simp: prefix_def)
  ultimately show ?thesis
    by (auto simp: leading_scheme_def)
qed

lemma mixed_http_scheme:
  assumes "scheme_ok x" "take 4 x = ''http''" "x \<noteq> ''http''" "x \<noteq> ''https''"
  shows "leading_scheme (x @ ''://'' @ r) = Some ''http''"
proof -
  from assms(1) have l: "length (map ascii_lower x) = 4 \<or> length (map ascii_lower x) = 5"
    unfolding scheme_ok_def by auto
  have "length x \<noteq> 4"
  proof
    assume "length x = 4"
    then have "take 4 x = x" by simp
    with assms(2,3) show False by simp
  qed
  with l have 5: "length x = 5" by simp
  then obtain a b c' d c where "x = [a, b, c', d, c]"
    by (auto simp: length_Suc_conv eval_nat_numeral)
  with assms(2) have x: "x = ''http'' @ [c]"
    by simp
  with assms(4) have "c \<noteq> CHR ''s''" by auto
  with x show ?thesis
    by (simp add: leading_scheme_def)
qed

section \<open>Proofs: addresses and targets\<close>

lemma IPv4Network_10_30: "IPv4Network ''10.0.0.0/30'' = Inr (167772160, 30)"
  by (simp add: IPv4Network_def IPv4Address_def ip_int_from_string_def parse_octet_def
        is_digit_def int_of_digits_def digit_val_def from_bytes_def make_netmask_def
        prefix_from_prefix_string_def ip_int_from_prefix_def ALL_ONES_def Let_def)

lemma addresses_10_30:
  "network_addresses (167772160, 30) = [167772160, 167772161, 167772162, 167772163]"
proof -
  have h: "ip_int_from_prefix 30 XOR ALL_ONES = 3"
    by (simp add: ip_int_from_prefix_def ALL_ONES_def)
  have b: "(167772160 :: nat) OR 3 = 167772163"
    by simp
  have u: "[167772160 ..< Suc 167772163] = [167772160, 167772161, 167772162, 167772163]"
    by (simp add: upt_rec)
  show ?thesis
    by (simp only: network_addresses_def Let_def fst_conv snd_conv h b u)
qed

lemma ip_to_str_10:
  "ip_to_str 167772160 = ''10.0.0.0''" "ip_to_str 167772161 = ''10.0.0.1''"
  "ip_to_str 167772162 = ''10.0.0.2''" "ip_to_str 167772163 = ''10.0.0.3''"
  by (simp_all add: ip_to_str_def digit_char_def)

lemma is_cidr_10_30: "is_cidr ''10.0.0.0/30''"
  unfolding is_cidr_iff cidr_tail_def
  by (intro exI [of _ "''10.0.0.0''"] exI [of _ "''/30''"] conjI exI [of _ "''30''"] exI [of _ "[]"])
     (simp_all add: is_digit_def)

lemma parseTarget_10_30:
  assumes "\<not> no_assume_http a" "\<not> no_assume_https a"
  shows "parseTarget a ''10.0.0.0/30'' =
     Inr [''http://10.0.0.0'', ''https://10.0.0.0'', ''http://10.0.0.1'', ''https://10.0.0.1'',
          ''http://10.0.0.2'', ''https://10.0.0.2'', ''http://10.0.0.3'', ''https://10.0.0.3'']"
  using assms
  by (simp add: parseTarget_def classifyTarget_def is_cidr_10_30 IPv4Network_10_30
        addresses_10_30 assumeIPTarget_def ip_to_str_10)

lemma parse_octet_nondigit: "\<not> is_digit x \<Longrightarrow> parse_octet (x # xs) = Inl ValueError"
  by (simp add: parse_octet_def)

lemma IPv4Address_nondigit:
  assumes "\<not> is_digit x" "x \<noteq> CHR ''.''"
  shows "\<exists>e. IPv4Address (x # xs) = Inl e"
proof -
  obtain ws where "py_split CHR ''.'' (x # xs) = takeWhile (\<lambda>y. y \<noteq> CHR ''.'') (x # xs) # ws"
    using py_split_hd [of "CHR ''.''" "x # xs"] by (elim exE)
  with assms(2) have "py_split CHR ''.'' (x # xs) = (x # takeWhile (\<lambda>y. y \<noteq> CHR ''.'') xs) # ws"
    by simp
  then show ?thesis
    using parse_octet_nondigit [OF assms(1)]
    by (simp add: IPv4Address_def ip_int_from_string_def Let_def)
qed



lemma not_prefix_length_99: "\<not> ends_with_prefix_length ''10.0.0.0/99''"
  by (simp add: ends_with_prefix_length_def upt_rec digit_char_def suffix_def
        Cons_eq_append_conv)




section \<open>Proofs: loading\<close>

lemma file_proxies_distinct:
  "distinct proxies \<Longrightarrow> file_proxies proxies lines = Inr proxies' \<Longrightarrow> distinct proxies'"
proof (induction lines arbitrary: proxies)
  case Nil
  then show ?case by simp
next
  case (Cons line lines)
  from Cons.prems(2) obtain scheme proxy where
    p: "parseProxy (py_strip line) = Inr (scheme, proxy)"
    by (auto split: sum.splits)
  show ?case
  proof (cases "Dict1 scheme (Str proxy) \<in> set proxies")
    case True
    with Cons.prems p have "file_proxies proxies lines = Inr proxies'" by simp
    from Cons.IH [OF Cons.prems(1) this] show ?thesis .
  next
    case False
    with Cons.prems p have "file_proxies (proxies @ [Dict1 scheme (Str proxy)]) lines = Inr proxies'"
      by simp
    moreover from False Cons.prems(1) have "distinct (proxies @ [Dict1 scheme (Str proxy)])"
      by simp
    ultimately show ?thesis using Cons.IH by blast
  qed
qed

lemma file_proxies_keeps:
  "file_proxies ps ls = Inr res \<Longrightarrow> set ps \<subseteq> set res"
proof (induction ls arbitrary: ps)
  case Nil
  then show ?case by simp
next
  case (Cons l ls)
  from Cons.prems obtain sch a where p: "parseProxy (py_strip l) = Inr (sch, a)"
    by (auto split: sum.splits)
  show ?case
  proof (cases "Dict1 sch (Str a) \<in> set ps")
    case True
    with Cons.prems p have "file_proxies ps ls = Inr res"
      by (simp add: Let_def)
    then show ?thesis by (rule Cons.IH)
  next
    case False
    with Cons.prems p have "file_proxies (ps @ [Dict1 sch (Str a)]) ls = Inr res"
      by (simp add: Let_def)
    then have "set (ps @ [Dict1 sch (Str a)]) \<subseteq> set res" by (rule Cons.IH)
    then show ?thesis by simp
  qed
qed

lemma file_proxies_has:
  "file_proxies ps ls = Inr res \<Longrightarrow> l \<in> set ls \<Longrightarrow> parseProxy (py_strip l) = Inr (sch, a) \<Longrightarrow>
   Dict1 sch (Str a) \<in> set res"
proof (induction ls arbitrary: ps)
  case Nil
  then show ?case by simp
next
  case (Cons l' ls)
  from Cons.prems(1) obtain sch' a' where p: "parseProxy (py_strip l') = Inr (sch', a')"
    by (auto split: sum.splits)
  define ps' where "ps' = (if Dict1 sch' (Str a') \<in> set ps then ps else ps @ [Dict1 sch' (Str a')])"
  from Cons.prems(1) p have r: "file_proxies ps' ls = Inr res"
    by (simp add: Let_def ps'_def split: if_splits)
  have in': "Dict1 sch' (Str a') \<in> set ps'"
    by (simp add: ps'_def)
  show ?case
  proof (cases "l = l'")
    case True
    with p Cons.prems(3) have "sch' = sch" "a' = a" by simp_all
    with in' file_proxies_keeps [OF r] show ?thesis by auto
  next
    case False
    with Cons.prems(2) have "l \<in> set ls" by simp
    from Cons.IH [OF r this Cons.prems(3)] show ?thesis .
  qed
qed

lemma load_proxies_keeps:
  "load_proxies ps as = Inr res \<Longrightarrow> set ps \<subseteq> set res"
proof (induction ps as rule: load_proxies.induct)
  case (1 proxies)
  then show ?case by simp
next
  case (2 proxies lines ps)
  from "2.prems" obtain proxies' where f: "file_proxies proxies lines = Inr proxies'"
    and l: "load_proxies proxies' ps = Inr res"
    by (auto split: sum.splits)
  from "2.IH" [OF f l] file_proxies_keeps [OF f] show ?case by auto
next
  case (3 proxies p ps)
  from "3.prems" obtain sch a where p: "parseProxy p = Inr (sch, a)"
    by (auto split: sum.splits)
  show ?case
  proof (cases "Dict1 sch (Str a) \<in> set proxies")
    case True
    with "3.prems" p have "load_proxies proxies ps = Inr res"
      by (simp add: Let_def)
    with "3.IH"(1) [OF p refl refl True] show ?thesis by simp
  next
    case False
    with "3.prems" p have "load_proxies (proxies @ [Dict1 sch (Dict1 sch (Str a))]) ps = Inr res"
      by (simp add: Let_def)
    with "3.IH"(2) [OF p refl refl False] show ?thesis by simp
  qed
qed

lemma load_proxies_has:
  "load_proxies ps as = Inr res \<Longrightarrow> File ls \<in> set as \<Longrightarrow> l \<in> set ls \<Longrightarrow>
   parseProxy (py_strip l) = Inr (sch, a) \<Longrightarrow> Dict1 sch (Str a) \<in> set res"
proof (induction ps as rule: load_proxies.induct)
  case (1 proxies)
  then show ?case by simp
next
  case (2 proxies lines ps)
  from "2.prems"(1) obtain proxies' where f: "file_proxies proxies lines = Inr proxies'"
    and l: "load_proxies proxies' ps = Inr res"
    by (auto split: sum.splits)
  show ?case
  proof (cases "File ls \<in> set ps")
    case True
    from "2.IH" [OF f l True "2.prems"(3,4)] show ?thesis .
  next
    case False
    with "2.prems"(2) have "lines = ls" by simp
    with file_proxies_has [OF f _ "2.prems"(4)] "2.prems"(3)
    have "Dict1 sch (Str a) \<in> set proxies'" by simp
    with load_proxies_keeps [OF l] show ?thesis by auto
  qed
next
  case (3 proxies p ps)
  from "3.prems"(1) obtain sch' a' where p: "parseProxy p = Inr (sch', a')"
    by (auto split: sum.splits)
  from "3.prems"(2) have in_ps: "File ls \<in> set ps" by simp
  show ?case
  proof (cases "Dict1 sch' (Str a') \<in> set proxies")
    case True
    with "3.prems"(1) p have "load_proxies proxies ps = Inr res"
      by (simp add: Let_def)
    from "3.IH"(1) [OF p refl refl True this in_ps "3.prems"(3,4)] show ?thesis .
  next
    case False
    with "3.prems"(1) p have "load_proxies (proxies @ [Dict1 sch' (Dict1 sch' (Str a'))]) ps = Inr res"
      by (simp add: Let_def)
    from "3.IH"(2) [OF p refl refl False this in_ps "3.prems"(3,4)] show ?thesis .
  qed
qed

lemma file_headers_newline:
  assumes "l \<in> set lines" "l \<noteq> []" "last l = newline"
  shows "file_headers headers lines = Inl AssertionError"
  using assms(1)
proof (induction lines arbitrary: headers)
  case Nil
  then show ?case by simp
next
  case (Cons x xs)
  show ?case
  proof (cases "parseHeader x")
    case (Inl e)
    then show ?thesis using parseHeader_Inl [OF Inl] by simp
  next
    case (Inr kv)
    with parseHeader_newline [of x] assms(2,3) have "x \<noteq> l" by auto
    with Cons.prems have "l \<in> set xs" by simp
    from Cons.IH [OF this] Inr show ?thesis by (simp split: prod.splits)
  qed
qed

lemma file_headers_Inl: "file_headers headers lines = Inl e \<Longrightarrow> e = AssertionError"
  by (induction lines arbitrary: headers) (auto split: sum.splits dest: parseHeader_Inl)

lemma load_headers_newline:
  assumes "File lines \<in> set hs" "l \<in> set lines" "l \<noteq> []" "last l = newline"
  shows "load_headers headers hs = Inl AssertionError"
  using assms(1)
proof (induction hs arbitrary: headers)
  case Nil
  then show ?case by simp
next
  case (Cons a hs)
  show ?case
  proof (cases a)
    case (File ls)
    show ?thesis
    proof (cases "file_headers headers ls")
      case (Inl e)
      with File file_headers_Inl [OF Inl] show ?thesis by simp
    next
      case (Inr hd')
      with file_headers_newline [OF _ assms(3,4), of ls headers] have "l \<notin> set ls" by auto
      with assms(2) File Cons.prems have "File lines \<in> set hs" by auto
      from Cons.IH [OF this] File Inr show ?thesis by simp
    qed
  next
    case (Plain h)
    show ?thesis
    proof (cases "parseHeader h")
      case (Inl e)
      with Plain parseHeader_Inl [OF Inl] show ?thesis by simp
    next
      case (Inr kv)
      from Plain Cons.prems have "File lines \<in> set hs" by auto
      from Cons.IH [OF this] Plain Inr show ?thesis by (simp split: prod.splits)
    qed
  qed
qed

section \<open>Proofs: the dispatch loop\<close>

lemma length_delete_all: "length (delete_all rs ds) \<le> length rs"
  unfolding delete_all_def
proof (induction ds arbitrary: rs)
  case Nil
  then show ?case by simp
next
  case (Cons d ds)
  have "length (foldl (\<lambda>acc res. remove1 res acc) (remove1 d rs) ds) \<le> length (remove1 d rs)"
    by (rule Cons.IH)
  also have "\<dots> \<le> length rs"
    by (cases "d \<in> set rs") (simp_all add: length_remove1 remove1_idem)
  finally show ?case by simp
qed

lemma window_inv_step:
  assumes "step N s s'" "window_inv N s"
  shows "window_inv N s'"
  using assms
proof (cases rule: step.cases)
  case (while_break to_del ready)
  then show ?thesis using assms(2) by (simp add: window_inv_def)
next
  case (while_sleep to_del ready)
  then show ?thesis
    using assms(2) length_delete_all [of "results s" to_del] by (simp add: window_inv_def)
next
  case (drain_ready res rest)
  then show ?thesis using assms(2) by (simp add: window_inv_def)
qed (auto simp: window_inv_def)

lemma window_inv_reachable:
  assumes "1 \<le> N" "reachable N P T s"
  shows "window_inv N s"
  using assms(2)
proof (induction rule: reachable.induct)
  case start
  show ?case using assms(1) by (simp add: window_inv_def init_def)
next
  case (after s s')
  then show ?case by (blast intro: window_inv_step)
qed

lemma step_grows:
  assumes "step N s s'" "length (results s) < length (results s')"
  shows "pc s = AtSubmit"
  using assms
proof (cases rule: step.cases)
  case (while_break to_del ready)
  then show ?thesis
    using assms(2) length_delete_all [of "results s" to_del] by simp
next
  case (while_sleep to_del ready)
  then show ?thesis
    using assms(2) length_delete_all [of "results s" to_del] by simp
next
  case (drain_ready res rest)
  then show ?thesis using assms(2) by simp
qed auto

lemma reachable_state1: "reachable 1 proxies1 [''http://t1''] state1"
proof -
  let ?s0 = "init 1 proxies1 [''http://t1'']"
  have m: "schemes_match (Dict1 ''http'' (Str ''http://p1'')) ''http://t1'' = Inr True"
    by (simp add: schemes_match_def compareSchemes_Str leading_scheme_def)
  have 0: "reachable 1 proxies1 [''http://t1''] ?s0"
    by (rule reachable.start)
  have "step 1 ?s0 (?s0\<lparr>pc := AtWhile\<rparr>)"
    by (rule step.for_match [OF _ _ m]) (simp_all add: init_def proxies1_def)
  with 0 have 1: "reachable 1 proxies1 [''http://t1''] (?s0\<lparr>pc := AtWhile\<rparr>)"
    by (rule reachable.after)
  have "step 1 (?s0\<lparr>pc := AtWhile\<rparr>) (?s0\<lparr>pc := AtWhile\<rparr>\<lparr>pc := AtSubmit\<rparr>)"
    by (rule step.while_exit) (simp_all add: init_def)
  with 1 have 2: "reachable 1 proxies1 [''http://t1''] (?s0\<lparr>pc := AtWhile\<rparr>\<lparr>pc := AtSubmit\<rparr>)"
    by (rule reachable.after)
  have "step 1 (?s0\<lparr>pc := AtWhile\<rparr>\<lparr>pc := AtSubmit\<rparr>) state1"
    using step.submit [of "?s0\<lparr>pc := AtWhile\<rparr>\<lparr>pc := AtSubmit\<rparr>"
        "Dict1 ''http'' (Str ''http://p1'')" "''http://t1''" "[]"
        "\<lparr>wid = 0, wproxy = Dict1 ''http'' (Str ''http://p1''), wtarget = ''http://t1''\<rparr>" 1]
    by (simp add: init_def proxies1_def state1_def)
  with 2 show ?thesis
    by (rule reachable.after)
qed

lemma progress_inv_step:
  assumes "step N s s'" "progress_inv P T s"
  shows "progress_inv P T s'"
proof -
  from assms(2) obtain seen where seen: "List.product P T = seen @ todo s"
      "map pair_of (submitted s) = filter eligible seen"
      "map wid (submitted s) = [0 ..< length (submitted s)]"
      "pc s = AtWhile \<or> pc s = AtSubmit \<longrightarrow> (\<exists>pt rest. todo s = pt # rest \<and> eligible pt)"
      "pc s = AtDrain \<or> pc s = AtEnd \<longrightarrow> todo s = []"
    unfolding progress_inv_def by blast
  from assms(1) show ?thesis
  proof (cases rule: step.cases)
    case for_end
    with seen show ?thesis unfolding progress_inv_def by auto
  next
    case (for_skip proxy target rest)
    then have "\<not> eligible (proxy, target)" by (simp add: eligible_def)
    with for_skip seen show ?thesis
      unfolding progress_inv_def by (intro exI [of _ "seen @ [(proxy, target)]"]) auto
  next
    case (for_match proxy target rest)
    then have "eligible (proxy, target)" by (simp add: eligible_def)
    with for_match seen show ?thesis
      unfolding progress_inv_def by (intro exI [of _ seen]) auto
  next
    case (for_raise proxy target rest e)
    with seen show ?thesis unfolding progress_inv_def by (intro exI [of _ seen]) auto
  next
    case while_exit
    with seen show ?thesis unfolding progress_inv_def by (intro exI [of _ seen]) auto
  next
    case (while_break to_del ready)
    with seen show ?thesis unfolding progress_inv_def by (intro exI [of _ seen]) auto
  next
    case (while_sleep to_del ready)
    with seen show ?thesis unfolding progress_inv_def by (intro exI [of _ seen]) auto
  next
    case (submit proxy target rest w)
    with seen have "eligible (proxy, target)" by auto
    with submit seen show ?thesis
      unfolding progress_inv_def
      by (intro exI [of _ "seen @ [(proxy, target)]"]) (auto simp: pair_of_def)
  next
    case (drain_ready res rest)
    with seen show ?thesis unfolding progress_inv_def by (intro exI [of _ seen]) auto
  next
    case (drain_wait res rest)
    with assms(2) show ?thesis by simp
  next
    case drain_end
    with seen show ?thesis unfolding progress_inv_def by (intro exI [of _ seen]) auto
  qed
qed

lemma progress_inv_reachable:
  assumes "reachable N P T s"
  shows "progress_inv P T s"
  using assms
proof (induction rule: reachable.induct)
  case start
  show ?case unfolding progress_inv_def by (intro exI [of _ "[]"]) (auto simp: init_def)
next
  case (after s s')
  then show ?case by (blast intro: progress_inv_step)
qed

lemma submitted_once:
  assumes "reachable N P T s"
  shows "(\<exists>seen. List.product P T = seen @ todo s \<and>
            map pair_of (submitted s) = filter eligible seen) \<and>
         distinct (submitted s) \<and>
         (pc s = AtDrain \<or> pc s = AtEnd \<longrightarrow>
            map pair_of (submitted s) = filter eligible (List.product P T))"
proof -
  from progress_inv_reachable [OF assms] obtain seen where seen:
      "List.product P T = seen @ todo s"
      "map pair_of (submitted s) = filter eligible seen"
      "map wid (submitted s) = [0 ..< length (submitted s)]"
      "pc s = AtDrain \<or> pc s = AtEnd \<longrightarrow> todo s = []"
    unfolding progress_inv_def by blast
  have "distinct (map wid (submitted s))"
    unfolding seen(3) by simp
  then have "distinct (submitted s)"
    by (simp add: distinct_map)
  with seen show ?thesis by auto
qed

lemma submitted_eligible:
  assumes "reachable N P T s" "w \<in> set (submitted s)"
  shows "schemes_match (wproxy w) (wtarget w) = Inr True"
proof -
  from progress_inv_reachable [OF assms(1)] obtain seen where
      "map pair_of (submitted s) = filter eligible seen"
    unfolding progress_inv_def by blast
  moreover from assms(2) have "pair_of w \<in> set (map pair_of (submitted s))"
    by simp
  ultimately have "eligible (pair_of w)"
    by simp
  then show ?thesis
    by (simp add: eligible_def pair_of_def)
qed

lemma skip_only:
  assumes "step N s s'" "pc s = AtFor" "todo s = (proxy, target) # rest"
    "schemes_match proxy target = Inr False"
  shows "s' = s\<lparr>todo := rest\<rparr>"
  using assms by (cases rule: step.cases) simp_all

lemma nested_proxy_states:
  assumes "reachable 4 proxies2 [''http://t''] s"
  shows "s = init 4 proxies2 [''http://t''] \<or>
         s = (init 4 proxies2 [''http://t''])\<lparr>pc := Raised TypeError\<rparr>"
  using assms
proof (induction rule: reachable.induct)
  case start
  show ?case by simp
next
  case (after s s')
  have m: "schemes_match (Dict1 ''http'' (Dict1 ''http'' (Str ''http://p''))) ''http://t'' = Inl TypeError"
    by (simp add: schemes_match_def compareSchemes_def)
  from after.IH show ?case
  proof
    assume s: "s = init 4 proxies2 [''http://t'']"
    from after.hyps(2) show ?thesis
      by (cases rule: step.cases) (auto simp: s init_def proxies2_def m)
  next
    assume s: "s = (init 4 proxies2 [''http://t''])\<lparr>pc := Raised TypeError\<rparr>"
    from after.hyps(2) show ?thesis
      by (cases rule: step.cases) (auto simp: s init_def)
  qed
qed

section \<open>The claims\<close>

text \<open>
  Claim C1. Appending a proxy whose (scheme, address) pair is in the list already should
  leave the list unchanged, for a proxy read from a file and for one given on the command
  line alike. The branch for files does so: \<open>file_proxies_distinct\<close> above shows that it
  keeps the list free of duplicates. The branch for literals tests \<^verbatim>\<open>{scheme: proxy}\<close> but
  appends \<^verbatim>\<open>{scheme: {scheme: proxy}}\<close>, so the test never finds what was appended: the
  same literal given twice is in the list twice.
\<close>

theorem cli_duplicates:
  "load_proxies [] [Plain ''http://p'', Plain ''http://p''] =
     Inr [Dict1 ''http'' (Dict1 ''http'' (Str ''http://p'')),
          Dict1 ''http'' (Dict1 ''http'' (Str ''http://p''))]"
  by (simp add: parseProxy_http_p)

text \<open>
  Claim C2. On two strings \<^verbatim>\<open>compareSchemes\<close> raises nothing and answers true exactly
  when both begin with \<^verbatim>\<open>http\<close> or \<^verbatim>\<open>https\<close> and the longest such token is the same for
  both. In particular the address of a proxy that \<^verbatim>\<open>parseProxy\<close> gave the scheme \<^verbatim>\<open>http\<close>
  does not match \<^verbatim>\<open>https://t\<close>, and the address of one with the scheme \<^verbatim>\<open>https\<close> does.
\<close>

theorem compareSchemes_tokens:
  "compareSchemes (Str v0) (Str v1) =
     Inr (leading_scheme v0 \<noteq> None \<and> leading_scheme v0 = leading_scheme v1) \<and>
   (parseProxy p = Inr (''http'', a) \<longrightarrow>
      compareSchemes (Str a) (Str ''https://t'') = Inr False) \<and>
   (parseProxy p = Inr (''https'', a) \<longrightarrow>
      compareSchemes (Str a) (Str ''https://t'') = Inr True)"
proof (intro conjI impI)
  show "compareSchemes (Str v0) (Str v1) =
     Inr (leading_scheme v0 \<noteq> None \<and> leading_scheme v0 = leading_scheme v1)"
    by (rule compareSchemes_Str)
next
  assume "parseProxy p = Inr (''http'', a)"
  from parseProxy_Inr [OF this] have "leading_scheme a = Some ''http''"
    by (intro leading_scheme_http) auto
  then show "compareSchemes (Str a) (Str ''https://t'') = Inr False"
    by (simp add: compareSchemes_Str leading_scheme_def)
next
  assume "parseProxy p = Inr (''https'', a)"
  from parseProxy_Inr [OF this] have "leading_scheme a = Some ''https''"
    by (intro leading_scheme_https) auto
  then show "compareSchemes (Str a) (Str ''https://t'') = Inr True"
    by (simp add: compareSchemes_Str leading_scheme_def)
qed

theorem compareSchemes_tokens_witness:
  "parseProxy ''http://p'' = Inr (''http'', ''http://p'') \<and>
   compareSchemes (Str ''http://p'') (Str ''https://t'') = Inr False"
  using compareSchemes_tokens [of "''http://p''" "''https://t''" "''http://p''" "''http://p''"]
  by (simp add: parseProxy_http_p leading_scheme_def)

text \<open>
  Claim C3. The callback reports success exactly when \<^verbatim>\<open>requests.get\<close> returned a
  response whose status is not 403; then the response is attached and there is no error. A
  response with status 403 and any exception give a failure with no response and the error
  attached. The proxy and the target come back unchanged.
\<close>

theorem callback_classification:
  "genericRequestsCallback get proxy target = (ok, p, t, resp, err) \<Longrightarrow>
     (ok \<longleftrightarrow> (\<exists>r. get target proxy = Returns r \<and> status_code r \<noteq> 403)) \<and>
     (ok \<longrightarrow> (\<exists>r. get target proxy = Returns r \<and> resp = Some r) \<and> err = None) \<and>
     (\<not> ok \<longrightarrow> resp = None \<and> (\<exists>e. err = Some e)) \<and>
     (\<forall>r. get target proxy = Returns r \<and> status_code r = 403 \<longrightarrow>
          \<not> ok \<and> err = Some (Exception ''403 Forbidden Response'')) \<and>
     (\<forall>e. get target proxy = Raises e \<longrightarrow> \<not> ok \<and> err = Some e) \<and>
     p = proxy \<and> t = target"
  by (cases "get target proxy") (auto simp: genericRequestsCallback_def split: if_splits)

theorem callback_classification_witness:
  "genericRequestsCallback (\<lambda>t p. Returns \<lparr>status_code = 403, body = []\<rparr>)
      (Dict1 ''http'' (Str ''http://p'')) ''http://t'' =
     (False, Dict1 ''http'' (Str ''http://p''), ''http://t'', None,
      Some (Exception ''403 Forbidden Response'')) \<and>
   genericRequestsCallback (\<lambda>t p. Returns \<lparr>status_code = 404, body = []\<rparr>)
      (Dict1 ''http'' (Str ''http://p'')) ''http://t'' =
     (True, Dict1 ''http'' (Str ''http://p''), ''http://t'',
      Some \<lparr>status_code = 404, body = []\<rparr>, None)"
proof -
  obtain ok p t resp err where
    r: "genericRequestsCallback (\<lambda>t p. Returns \<lparr>status_code = 403, body = []\<rparr>)
          (Dict1 ''http'' (Str ''http://p'')) ''http://t'' = (ok, p, t, resp, err)"
    by (metis prod_cases5)
  obtain ok' p' t' resp' err' where
    r': "genericRequestsCallback (\<lambda>t p. Returns \<lparr>status_code = 404, body = []\<rparr>)
          (Dict1 ''http'' (Str ''http://p'')) ''http://t'' = (ok', p', t', resp', err')"
    by (metis prod_cases5)
  from callback_classification [OF r] callback_classification [OF r']
  show ?thesis
    unfolding r r' by auto
qed

text \<open>
  Claim C4. With both assumptions enabled \<^verbatim>\<open>10.0.0.0/30\<close> expands to eight targets: the
  four addresses of the network in order, the network and the broadcast address among
  them, each as \<^verbatim>\<open>http://\<close> and then as \<^verbatim>\<open>https://\<close>. For every address
  \<^verbatim>\<open>assumeIPTarget\<close> gives the enabled variants only, \<^verbatim>\<open>http\<close> first, and nothing when both
  are disabled; a network contributes the variants of its addresses in address order.
\<close>

theorem cidr_30_expansion:
  "(\<not> no_assume_http a \<and> \<not> no_assume_https a \<longrightarrow>
      parseTarget a ''10.0.0.0/30'' =
        Inr [''http://10.0.0.0'', ''https://10.0.0.0'', ''http://10.0.0.1'', ''https://10.0.0.1'',
             ''http://10.0.0.2'', ''https://10.0.0.2'', ''http://10.0.0.3'', ''https://10.0.0.3'']) \<and>
   network_addresses (167772160, 30) = [167772160, 167772161, 167772162, 167772163] \<and>
   assumeIPTarget a ip =
     (if no_assume_http a then [] else [''http://'' @ ip_to_str ip]) @
     (if no_assume_https a then [] else [''https://'' @ ip_to_str ip]) \<and>
   (no_assume_http a \<and> no_assume_https a \<longrightarrow> assumeIPTarget a ip = []) \<and>
   (classifyTarget t = Inr (TNetwork net) \<longrightarrow>
      parseTarget a t = Inr (concat (map (assumeIPTarget a) (network_addresses net)))) \<and>
   (classifyTarget t = Inr (TAddress ip) \<longrightarrow> parseTarget a t = Inr (assumeIPTarget a ip))"
  using parseTarget_10_30 [of a] addresses_10_30
  by (auto simp: assumeIPTarget_def parseTarget_def)

theorem cidr_30_expansion_witness:
  "parseTarget args0 ''10.0.0.0/30'' =
     Inr [''http://10.0.0.0'', ''https://10.0.0.0'', ''http://10.0.0.1'', ''https://10.0.0.1'',
          ''http://10.0.0.2'', ''https://10.0.0.2'', ''http://10.0.0.3'', ''https://10.0.0.3''] \<and>
   assumeIPTarget (args0\<lparr>no_assume_http := True, no_assume_https := True\<rparr>) 167772160 = [] \<and>
   classifyTarget ''10.0.0.0/30'' = Inr (TNetwork (167772160, 30))"
  using cidr_30_expansion [of args0 167772160 "''10.0.0.0/30''" "(167772160, 30)"]
        cidr_30_expansion [of "args0\<lparr>no_assume_http := True, no_assume_https := True\<rparr>" 167772160]
  by (simp add: args0_def classifyTarget_def is_cidr_10_30 IPv4Network_10_30)




text \<open>
  Claim C6, as the script has it. A string that ends with a slash and one or two
  decimal digits takes the CIDR branch: the result of \<^verbatim>\<open>parseTarget\<close> is the expansion of
  the network, or the error of \<^verbatim>\<open>IPv4Network\<close>. A string that does not end, up to one final
  newline, with a slash and at most two digits takes the other branch: an address if
  \<^verbatim>\<open>IPv4Address\<close> accepts it, the literal otherwise.
\<close>

theorem cidr_branch:
  "(t = pre @ ''/'' @ ds \<and> ds \<noteq> [] \<and> length ds \<le> 2 \<and> list_all is_digit ds \<longrightarrow>
      is_cidr t \<and>
      parseTarget a t =
        (case IPv4Network t of
           Inl e \<Rightarrow> Inl e
         | Inr net \<Rightarrow> Inr (concat (map (assumeIPTarget a) (network_addresses net))))) \<and>
   (\<not> (\<exists>pre ds nl. t = pre @ ''/'' @ ds @ nl \<and> length ds \<le> 2 \<and> list_all is_digit ds \<and>
                     (nl = [] \<or> nl = [newline])) \<longrightarrow>
      \<not> is_cidr t \<and>
      parseTarget a t =
        (case IPv4Address t of
           Inr ip \<Rightarrow> Inr (assumeIPTarget a ip)
         | Inl e \<Rightarrow> Inr (let nt = assumeURLTarget a t in if nt = [] then [t] else nt)))"
proof (intro conjI impI)
  assume h: "t = pre @ ''/'' @ ds \<and> ds \<noteq> [] \<and> length ds \<le> 2 \<and> list_all is_digit ds"
  then have "cidr_tail (''/'' @ ds)"
    unfolding cidr_tail_def by (intro exI [of _ ds] exI [of _ "[]"]) simp
  with h show c: "is_cidr t"
    unfolding is_cidr_iff by (intro exI [of _ pre] exI [of _ "''/'' @ ds"]) simp
  show "parseTarget a t =
        (case IPv4Network t of
           Inl e \<Rightarrow> Inl e
         | Inr net \<Rightarrow> Inr (concat (map (assumeIPTarget a) (network_addresses net))))"
    using c by (simp add: parseTarget_def classifyTarget_def split: sum.splits)
next
  assume n: "\<not> (\<exists>pre ds nl. t = pre @ ''/'' @ ds @ nl \<and> length ds \<le> 2 \<and> list_all is_digit ds \<and>
                     (nl = [] \<or> nl = [newline]))"
  show c: "\<not> is_cidr t"
  proof
    assume "is_cidr t"
    then obtain pre suf where "t = pre @ suf" "cidr_tail suf"
      unfolding is_cidr_iff by (elim exE conjE)
    then obtain ds nl where "t = pre @ ''/'' @ ds @ nl" "length ds \<le> 2" "list_all is_digit ds"
        "nl = [] \<or> nl = [newline]"
      unfolding cidr_tail_def by auto
    with n show False by blast
  qed
  show "parseTarget a t =
        (case IPv4Address t of
           Inr ip \<Rightarrow> Inr (assumeIPTarget a ip)
         | Inl e \<Rightarrow> Inr (let nt = assumeURLTarget a t in if nt = [] then [t] else nt))"
    using c by (simp add: parseTarget_def classifyTarget_def split: sum.splits)
qed

theorem cidr_branch_witness:
  "is_cidr ''10.0.0.0/24'' \<and> \<not> is_cidr ''example.com'' \<and>
   parseTarget args0 ''example.com'' = Inr [''http://example.com'', ''https://example.com'']"
proof -
  have n: "\<not> (\<exists>pre ds nl. ''example.com'' = pre @ ''/'' @ ds @ nl \<and> length ds \<le> 2 \<and>
                list_all is_digit ds \<and> (nl = [] \<or> nl = [newline]))"
  proof
    assume "\<exists>pre ds nl. ''example.com'' = pre @ ''/'' @ ds @ nl \<and> length ds \<le> 2 \<and>
                list_all is_digit ds \<and> (nl = [] \<or> nl = [newline])"
    then obtain pre ds nl where eq: "''example.com'' = pre @ ''/'' @ ds @ nl"
      by (elim exE conjE)
    have "CHR ''/'' \<in> set (pre @ ''/'' @ ds @ nl)"
      by simp
    then have "CHR ''/'' \<in> set ''example.com''"
      unfolding eq [symmetric] .
    then show False by simp
  qed
  obtain e where e: "IPv4Address ''example.com'' = Inl e"
    using IPv4Address_nondigit [of "CHR ''e''" "''xample.com''"] by (auto simp: is_digit_def)
  from cidr_branch [of "''10.0.0.0/24''" "''10.0.0.0''" "''24''" args0]
  have "is_cidr ''10.0.0.0/24''"
    by (simp add: is_digit_def)
  moreover from cidr_branch [of "''example.com''" _ _ args0] n
  have "\<not> is_cidr ''example.com''" and
    "parseTarget args0 ''example.com'' =
      (case IPv4Address ''example.com'' of
         Inr ip \<Rightarrow> Inr (assumeIPTarget args0 ip)
       | Inl e \<Rightarrow> Inr (let nt = assumeURLTarget args0 ''example.com'' in
                          if nt = [] then [''example.com''] else nt))"
    by blast+
  ultimately show ?thesis
    by (simp add: e assumeURLTarget_def args0_def)
qed

text \<open>
  Claim C6, as stated, lets only the prefix lengths 0 to 32 into the CIDR branch. The
  pattern asks for digits, not for their value: \<^verbatim>\<open>10.0.0.0/99\<close> takes the CIDR branch and
  \<^verbatim>\<open>IPv4Network\<close> raises.
\<close>

theorem cidr_above_32_counterexample:
  "is_cidr ''10.0.0.0/99'' \<and> \<not> ends_with_prefix_length ''10.0.0.0/99'' \<and>
   parseTarget args0 ''10.0.0.0/99'' = Inl NetmaskValueError"
proof -
  have c: "is_cidr ''10.0.0.0/99''"
    unfolding is_cidr_iff cidr_tail_def
    by (intro exI [of _ "''10.0.0.0''"] exI [of _ "''/99''"] conjI exI [of _ "''99''"] exI [of _ "[]"])
       (simp_all add: is_digit_def)
  have n: "IPv4Network ''10.0.0.0/99'' = Inl NetmaskValueError"
    by (simp add: IPv4Network_def IPv4Address_def ip_int_from_string_def parse_octet_def
        is_digit_def int_of_digits_def digit_val_def from_bytes_def make_netmask_def
        prefix_from_prefix_string_def prefix_from_ip_string_def Let_def)
  show ?thesis
    using c n not_prefix_length_99 by (simp add: parseTarget_def classifyTarget_def)
qed

text \<open>
  Claim C7. For a window \<open>N \<ge> 1\<close> the list \<^verbatim>\<open>results\<close> never holds more than \<open>N\<close> items in any
  state the loop can reach, and a step that makes the list longer starts from a state
  with fewer than \<open>N\<close> items.
\<close>

theorem window_bound:
  assumes "1 \<le> N" "reachable N P T s"
  shows "int (length (results s)) \<le> N \<and>
         (\<forall>s'. step N s s' \<and> length (results s) < length (results s') \<longrightarrow>
               int (length (results s)) < N)"
  using window_inv_reachable [OF assms] step_grows [of N s]
  by (auto simp: window_inv_def)

theorem window_bound_witness:
  "reachable 1 proxies1 [''http://t1''] state1 \<and> length (results state1) = 1 \<and>
   int (length (results state1)) \<le> 1"
  using window_bound [OF _ reachable_state1] reachable_state1
  by (simp add: state1_def)

text \<open>
  Claim C8. The loop should submit one item for every pair that passes the scheme test.
  \<open>submitted_once\<close> above shows that it never submits a pair twice or out of order, and that
  once the loop is through, every such pair was submitted. But an entry that came from the
  command line is \<^verbatim>\<open>{scheme: {scheme: url}}\<close> (see C1): \<^verbatim>\<open>compareSchemes\<close> receives a
  dictionary and \<^verbatim>\<open>re.search\<close> raises \<^verbatim>\<open>TypeError\<close>. With such an entry first, the loop
  stops at its first pair; the pair of the second proxy passes the test and is never
  submitted.
\<close>

theorem nested_proxy_crash:
  "load_proxies [] [Plain ''http://p'', File [''http://q'' @ [newline]]] = Inr proxies2 \<and>
   schemes_match (Dict1 ''http'' (Str ''http://q'')) ''http://t'' = Inr True \<and>
   step 4 (init 4 proxies2 [''http://t''])
          ((init 4 proxies2 [''http://t''])\<lparr>pc := Raised TypeError\<rparr>) \<and>
   \<not> (\<exists>s. reachable 4 proxies2 [''http://t''] s \<and> submitted s \<noteq> []) \<and>
   \<not> (\<exists>s. reachable 4 proxies2 [''http://t''] s \<and> (pc s = AtDrain \<or> pc s = AtEnd))"
proof (intro conjI)
  have q: "py_strip (''http://q'' @ [newline]) = ''http://q''"
    by (simp add: py_strip_def isspace_def newline_def)
  have pq: "parseProxy ''http://q'' = Inr (''http'', ''http://q'')"
    using parseProxy_accept [of "''http''" "''q''"]
    by (simp add: scheme_ok_def dot_ok_def lower_facts newline_def)
  show "load_proxies [] [Plain ''http://p'', File [''http://q'' @ [newline]]] = Inr proxies2"
    by (simp add: parseProxy_http_p q [simplified] pq proxies2_def Let_def)
  show "schemes_match (Dict1 ''http'' (Str ''http://q'')) ''http://t'' = Inr True"
    by (simp add: schemes_match_def compareSchemes_Str leading_scheme_def)
  have m: "schemes_match (Dict1 ''http'' (Dict1 ''http'' (Str ''http://p''))) ''http://t'' = Inl TypeError"
    by (simp add: schemes_match_def compareSchemes_def)
  show "step 4 (init 4 proxies2 [''http://t''])
          ((init 4 proxies2 [''http://t''])\<lparr>pc := Raised TypeError\<rparr>)"
    by (rule step.for_raise [OF _ _ m]) (simp_all add: init_def proxies2_def)
  show "\<not> (\<exists>s. reachable 4 proxies2 [''http://t''] s \<and> submitted s \<noteq> [])"
  proof
    assume "\<exists>s. reachable 4 proxies2 [''http://t''] s \<and> submitted s \<noteq> []"
    then obtain s where r: "reachable 4 proxies2 [''http://t''] s" and b: "submitted s \<noteq> []"
      by (elim exE conjE)
    from nested_proxy_states [OF r] b show False
      by (auto simp: init_def)
  qed
  show "\<not> (\<exists>s. reachable 4 proxies2 [''http://t''] s \<and> (pc s = AtDrain \<or> pc s = AtEnd))"
  proof
    assume "\<exists>s. reachable 4 proxies2 [''http://t''] s \<and> (pc s = AtDrain \<or> pc s = AtEnd)"
    then obtain s where r: "reachable 4 proxies2 [''http://t''] s"
      and b: "pc s = AtDrain \<or> pc s = AtEnd"
      by (elim exE conjE)
    from nested_proxy_states [OF r] b show False
      by (auto simp: init_def)
  qed
qed

text \<open>
  Claim C9, as the script has it. A proxy string \<open>x://r\<close>, where \<open>x\<close> is \<^verbatim>\<open>http\<close> or
  \<^verbatim>\<open>https\<close> up to the case of its letters and \<open>r\<close> has a first character that is not a
  newline, is accepted by \<^verbatim>\<open>parseProxy\<close>, which returns the scheme as written. When the first
  four characters are not \<^verbatim>\<open>http\<close> in lower case, \<^verbatim>\<open>compareSchemes\<close> answers false for the
  address against every target. Read from a file, the proxy is in the proxy list as
  \<^verbatim>\<open>{x: address}\<close> whenever the loading succeeds; the test of the loop answers false for
  that entry and every target and raises nothing, the only step of the loop at a pair of
  that entry is to skip it, and no run of the loop, whatever the proxy list, the targets
  and the window, ever submits an item for it. When the first four characters are
  \<^verbatim>\<open>http\<close> and the scheme is neither \<^verbatim>\<open>http\<close> nor \<^verbatim>\<open>https\<close>, that is for \<^verbatim>\<open>httpS\<close>,
  \<^verbatim>\<open>compareSchemes\<close> reads the address as an \<^verbatim>\<open>http\<close> address: it answers true exactly for
  the targets whose leading token is \<^verbatim>\<open>http\<close>.
\<close>

theorem uppercase_scheme_excluded:
  assumes "map ascii_lower x = ''http'' \<or> map ascii_lower x = ''https''"
    and "r \<noteq> []" and "hd r \<noteq> newline"
  shows "parseProxy (x @ ''://'' @ r) = Inr (x, x @ ''://'' @ r) \<and>
         (take 4 x \<noteq> ''http'' \<longrightarrow>
            (\<forall>t. compareSchemes (Str (x @ ''://'' @ r)) (Str t) = Inr False) \<and>
            (\<forall>ps as res ls line.
               load_proxies ps as = Inr res \<and> File ls \<in> set as \<and> line \<in> set ls \<and>
               py_strip line = x @ ''://'' @ r \<longrightarrow>
               Dict1 x (Str (x @ ''://'' @ r)) \<in> set res) \<and>
            (\<forall>t. schemes_match (Dict1 x (Str (x @ ''://'' @ r))) t = Inr False) \<and>
            (\<forall>N s s' t rest.
               pc s = AtFor \<and> todo s = (Dict1 x (Str (x @ ''://'' @ r)), t) # rest \<and> step N s s' \<longrightarrow>
               s' = s\<lparr>todo := rest\<rparr>) \<and>
            (\<forall>N P T s. reachable N P T s \<longrightarrow>
               (\<forall>w \<in> set (submitted s). wproxy w \<noteq> Dict1 x (Str (x @ ''://'' @ r))))) \<and>
         (take 4 x = ''http'' \<and> x \<noteq> ''http'' \<and> x \<noteq> ''https'' \<longrightarrow>
            (\<forall>t. compareSchemes (Str (x @ ''://'' @ r)) (Str t) =
                  Inr (leading_scheme t = Some ''http'')))"
proof (intro conjI impI allI)
  have ok: "scheme_ok x" using assms(1) by (simp add: scheme_ok_def)
  have dk: "dot_ok r" using assms(2,3) by (cases r) (simp_all add: dot_ok_def)
  let ?a = "x @ ''://'' @ r"
  show acc: "parseProxy ?a = Inr (x, ?a)"
    by (rule parseProxy_accept [OF ok dk])
  {
    assume up: "take 4 x \<noteq> ''http''"
    have none: "leading_scheme ?a = None"
      by (rule not_lower_http_scheme [OF ok up])
    show "compareSchemes (Str ?a) (Str t) = Inr False" for t
      using none by (simp add: compareSchemes_Str)
    show m: "schemes_match (Dict1 x (Str ?a)) t = Inr False" for t
      using none by (simp add: schemes_match_def compareSchemes_Str)
    show "Dict1 x (Str ?a) \<in> set res"
      if "load_proxies ps as = Inr res \<and> File ls \<in> set as \<and> line \<in> set ls \<and> py_strip line = ?a"
      for ps as res ls line
      using that load_proxies_has [of ps as res ls line x ?a] acc by simp
    show "s' = s\<lparr>todo := rest\<rparr>"
      if "pc s = AtFor \<and> todo s = (Dict1 x (Str ?a), t) # rest \<and> step N s s'"
      for N s s' t rest
      using that skip_only [of N s s' "Dict1 x (Str ?a)" t rest] m by simp
    show "\<forall>w \<in> set (submitted s). wproxy w \<noteq> Dict1 x (Str ?a)" if "reachable N P T s"
      for N P T s
    proof
      fix w
      assume "w \<in> set (submitted s)"
      from submitted_eligible [OF that this] m [of "wtarget w"]
      show "wproxy w \<noteq> Dict1 x (Str ?a)" by auto
    qed
  }
  {
    assume "take 4 x = ''http'' \<and> x \<noteq> ''http'' \<and> x \<noteq> ''https''"
    then have "leading_scheme ?a = Some ''http''"
      using mixed_http_scheme [OF ok] by simp
    then show "compareSchemes (Str ?a) (Str t) = Inr (leading_scheme t = Some ''http'')" for t
      by (auto simp: compareSchemes_Str)
  }
qed

theorem uppercase_scheme_excluded_witness:
  "parseProxy ''HTTP://p'' = Inr (''HTTP'', ''HTTP://p'') \<and>
   compareSchemes (Str ''HTTP://p'') (Str ''http://t'') = Inr False \<and>
   load_proxies [] [File [''HTTP://p'' @ [newline]]] = Inr [Dict1 ''HTTP'' (Str ''HTTP://p'')] \<and>
   schemes_match (Dict1 ''HTTP'' (Str ''HTTP://p'')) ''http://t'' = Inr False \<and>
   parseProxy ''httpS://p'' = Inr (''httpS'', ''httpS://p'') \<and>
   compareSchemes (Str ''httpS://p'') (Str ''https://t'') = Inr False"
proof -
  have q: "py_strip (''HTTP://p'' @ [newline]) = ''HTTP://p''"
    by (simp add: py_strip_def isspace_def newline_def)
  from uppercase_scheme_excluded [of "''HTTP''" "''p''"]
  have u: "parseProxy ''HTTP://p'' = Inr (''HTTP'', ''HTTP://p'')"
      "compareSchemes (Str ''HTTP://p'') (Str ''http://t'') = Inr False"
      "schemes_match (Dict1 ''HTTP'' (Str ''HTTP://p'')) ''http://t'' = Inr False"
    by (simp_all add: ascii_lower_def newline_def)
  from uppercase_scheme_excluded [of "''httpS''" "''p''"]
  have m: "parseProxy ''httpS://p'' = Inr (''httpS'', ''httpS://p'')"
      "compareSchemes (Str ''httpS://p'') (Str ''https://t'') = Inr False"
    by (simp_all add: ascii_lower_def newline_def leading_scheme_def)
  have "load_proxies [] [File [''HTTP://p'' @ [newline]]] = Inr [Dict1 ''HTTP'' (Str ''HTTP://p'')]"
    by (simp add: q [simplified] u(1) Let_def)
  with u m show ?thesis by simp
qed

text \<open>
  Claim C9, as stated, asks this of every scheme that is not entirely in lower case. The
  optional \<^verbatim>\<open>s\<close> of the pattern of \<^verbatim>\<open>compareSchemes\<close> lets \<^verbatim>\<open>httpS://p\<close> through as an
  \<^verbatim>\<open>http\<close> address: read from a file it is accepted, it matches the target
  \<^verbatim>\<open>http://t\<close>, and the loop submits an item for the pair.
\<close>

theorem mixed_case_counterexample:
  "parseProxy ''httpS://p'' = Inr (''httpS'', ''httpS://p'') \<and>
   map ascii_lower ''httpS'' \<noteq> ''httpS'' \<and>
   compareSchemes (Str ''httpS://p'') (Str ''http://t'') = Inr True \<and>
   load_proxies [] [File [''httpS://p'' @ [newline]]] = Inr [Dict1 ''httpS'' (Str ''httpS://p'')] \<and>
   schemes_match (Dict1 ''httpS'' (Str ''httpS://p'')) ''http://t'' = Inr True \<and>
   (\<exists>s. reachable 4 [Dict1 ''httpS'' (Str ''httpS://p'')] [''http://t''] s \<and>
        submitted s = [\<lparr>wid = 0, wproxy = Dict1 ''httpS'' (Str ''httpS://p''), wtarget = ''http://t''\<rparr>])"
proof -
  let ?e = "Dict1 ''httpS'' (Str ''httpS://p'')"
  let ?w = "\<lparr>wid = 0, wproxy = ?e, wtarget = ''http://t''\<rparr>"
  let ?s0 = "init 4 [?e] [''http://t'']"
  have p: "parseProxy (''httpS'' @ ''://'' @ ''p'') = Inr (''httpS'', ''httpS'' @ ''://'' @ ''p'')"
    by (rule parseProxy_accept) (simp_all add: scheme_ok_def dot_ok_def ascii_lower_def newline_def)
  have q: "py_strip (''httpS://p'' @ [newline]) = ''httpS://p''"
    by (simp add: py_strip_def isspace_def newline_def)
  have l: "load_proxies [] [File [''httpS://p'' @ [newline]]] = Inr [?e]"
    using p by (simp add: q [simplified] Let_def)
  have m: "schemes_match ?e ''http://t'' = Inr True"
    by (simp add: schemes_match_def compareSchemes_Str leading_scheme_def)
  have 0: "reachable 4 [?e] [''http://t''] ?s0"
    by (rule reachable.start)
  have "step 4 ?s0 (?s0\<lparr>pc := AtWhile\<rparr>)"
    by (rule step.for_match [OF _ _ m]) (simp_all add: init_def)
  with 0 have 1: "reachable 4 [?e] [''http://t''] (?s0\<lparr>pc := AtWhile\<rparr>)"
    by (rule reachable.after)
  have "step 4 (?s0\<lparr>pc := AtWhile\<rparr>) (?s0\<lparr>pc := AtWhile\<rparr>\<lparr>pc := AtSubmit\<rparr>)"
    by (rule step.while_exit) (simp_all add: init_def)
  with 1 have 2: "reachable 4 [?e] [''http://t''] (?s0\<lparr>pc := AtWhile\<rparr>\<lparr>pc := AtSubmit\<rparr>)"
    by (rule reachable.after)
  define s3 where "s3 = ?s0\<lparr>pc := AtFor, todo := [], results := [?w], submitted := [?w]\<rparr>"
  have "step 4 (?s0\<lparr>pc := AtWhile\<rparr>\<lparr>pc := AtSubmit\<rparr>) s3"
    using step.submit [of "?s0\<lparr>pc := AtWhile\<rparr>\<lparr>pc := AtSubmit\<rparr>" ?e "''http://t''" "[]" ?w 4]
    by (simp add: init_def s3_def)
  with 2 have r3: "reachable 4 [?e] [''http://t''] s3"
    by (rule reachable.after)
  have s3: "submitted s3 = [?w]"
    by (simp add: s3_def)
  have c: "compareSchemes (Str ''httpS://p'') (Str ''http://t'') = Inr True"
    by (simp add: compareSchemes_Str leading_scheme_def)
  have u: "map ascii_lower ''httpS'' \<noteq> ''httpS''"
    by (simp add: ascii_lower_def)
  show ?thesis
  proof (intro conjI)
    show "parseProxy ''httpS://p'' = Inr (''httpS'', ''httpS://p'')"
      using p by simp
    show "\<exists>s. reachable 4 [?e] [''http://t''] s \<and> submitted s = [?w]"
      using r3 s3 by (intro exI [of _ s3] conjI)
  qed (rule u c l m)+
qed

text \<open>
  Claim C10. \<^verbatim>\<open>parseHeader\<close> fails its assertion on every string that ends with a
  newline; the lines of a header file reach it with their line end, so a file with such a
  line aborts the loading of the headers.
\<close>

theorem header_newline_fails:
  "(h \<noteq> [] \<and> last h = newline \<longrightarrow> parseHeader h = Inl AssertionError) \<and>
   (File lines \<in> set hs \<and> l \<in> set lines \<and> l \<noteq> [] \<and> last l = newline \<longrightarrow>
      load_headers headers hs = Inl AssertionError)"
  using parseHeader_newline [of h] load_headers_newline [of lines hs l headers] by blast

theorem header_newline_fails_witness:
  "parseHeader (''Key: Value'' @ [newline]) = Inl AssertionError \<and>
   load_headers Map.empty [File [''Key: Value'' @ [newline]]] = Inl AssertionError"
  using header_newline_fails [of "''Key: Value'' @ [newline]" "[''Key: Value'' @ [newline]]"
          "[File [''Key: Value'' @ [newline]]]" "''Key: Value'' @ [newline]" Map.empty]
  by simp

end
